theory Spec2Isabelle
  imports Main "HOL-Library.Word"
begin

section \<open>JavaScript strings\<close>

text \<open>
  A JavaScript string is a sequence of UTF-16 code units.  \<open>js\<close> turns an ASCII literal
  into such a sequence, so that the texts of the source (\<open>'Host '\<close>, \<open>'name'\<close>, ...) can be
  written down as they are.
\<close>

type_synonym jschar = "16 word"
type_synonym jsstring = "jschar list"

definition js :: "string \<Rightarrow> jsstring" where
  "js s = map (\<lambda>c. of_nat (of_char c)) s"

text \<open>
  The class \<open>\s\<close> of a regular expression and the characters removed by \<open>trim()\<close> are the
  same set: WhiteSpace and LineTerminator of the language definition (TAB, LF, VT, FF, CR,
  SP, NBSP, U+1680, U+2000..U+200A, U+2028, U+2029, U+202F, U+205F, U+3000, U+FEFF).
\<close>

definition is_space :: "jschar \<Rightarrow> bool" where
  "is_space c = (let n = unat c in
      (9 \<le> n \<and> n \<le> 13) \<or> n = 32 \<or> n = 160 \<or> n = 5760 \<or> (8192 \<le> n \<and> n \<le> 8202)
      \<or> n = 8232 \<or> n = 8233 \<or> n = 8239 \<or> n = 8287 \<or> n = 12288 \<or> n = 65279)"

text \<open>The characters that \<open>.\<close> does not match: LF, CR, U+2028, U+2029.\<close>

definition is_line_terminator :: "jschar \<Rightarrow> bool" where
  "is_line_terminator c = (let n = unat c in n = 10 \<or> n = 13 \<or> n = 8232 \<or> n = 8233)"

text \<open>The class \<open>\w\<close>: \<open>[A-Za-z0-9_]\<close>.\<close>

definition is_word :: "jschar \<Rightarrow> bool" where
  "is_word c = (let n = unat c in
      (48 \<le> n \<and> n \<le> 57) \<or> (65 \<le> n \<and> n \<le> 90) \<or> n = 95 \<or> (97 \<le> n \<and> n \<le> 122))"

definition newline :: jschar where
  "newline = 10"

definition trim :: "jsstring \<Rightarrow> jsstring" where
  "trim s = rev (dropWhile is_space (rev (dropWhile is_space s)))"

text \<open>\<open>content.split('\n')\<close>: the pieces between the line feeds; never an empty list.\<close>

fun split_newline :: "jsstring \<Rightarrow> jsstring list" where
  "split_newline [] = [[]]"
| "split_newline (c # cs) =
     (if c = newline then [] # split_newline cs
      else (case split_newline cs of
              [] \<Rightarrow> [[c]]
            | l # ls \<Rightarrow> (c # l) # ls))"

text \<open>\<open>lines.join('\n')\<close>.\<close>

fun join_newline :: "jsstring list \<Rightarrow> jsstring" where
  "join_newline [] = []"
| "join_newline [l] = l"
| "join_newline (l # ls) = l @ newline # join_newline ls"

section \<open>The two regular expressions of \<open>parse\<close>\<close>

text \<open>
  \<open>\s+(.+)$\<close>, the common tail of both expressions, matched at the start of \<open>r\<close>.
  \<open>\s+\<close> is greedy: it takes the whole run of white space \<open>w\<close>, and \<open>(.+)$\<close> must then
  take all that is left, \<open>v\<close>.  Giving back white space only helps when nothing is left:
  then the last character of the run, when \<open>.\<close> matches it, is the capture.
\<close>

definition match_rest :: "jsstring \<Rightarrow> jsstring option" where
  "match_rest r =
     (let w = takeWhile is_space r; v = dropWhile is_space r in
      if w = [] then None
      else if v \<noteq> [] then (if list_ex is_line_terminator v then None else Some v)
      else if 2 \<le> length w \<and> \<not> is_line_terminator (last w) then Some [last w]
      else None)"

text \<open>
  The keyword \<open>Host\<close> under the flag \<open>i\<close> (without the flag \<open>u\<close>): only the ASCII letters
  of either case are equivalent to \<open>H\<close>, \<open>o\<close>, \<open>s\<close>, \<open>t\<close>.
\<close>

definition is_host_keyword :: "jsstring \<Rightarrow> bool" where
  "is_host_keyword k =
     (case k of
        [c1, c2, c3, c4] \<Rightarrow>
          (c1 = 72 \<or> c1 = 104) \<and> (c2 = 79 \<or> c2 = 111) \<and>
          (c3 = 83 \<or> c3 = 115) \<and> (c4 = 84 \<or> c4 = 116)
      | _ \<Rightarrow> False)"

text \<open>\<open>trimmed.match(/^Host\s+(.+)$/i)\<close>: the capture \<open>hostMatch[1]\<close>, or None for null.\<close>

definition hostMatch :: "jsstring \<Rightarrow> jsstring option" where
  "hostMatch t = (if is_host_keyword (take 4 t) then match_rest (drop 4 t) else None)"

text \<open>
  \<open>trimmed.match(/^(\w+)\s+(.+)$/)\<close>: the captures \<open>(optMatch[1], optMatch[2])\<close>.
  \<open>\w+\<close> takes the longest run of word characters; a shorter one would be followed by a
  word character, where \<open>\s+\<close> fails.
\<close>

definition optMatch :: "jsstring \<Rightarrow> (jsstring \<times> jsstring) option" where
  "optMatch t =
     (let k = takeWhile is_word t in
      if k = [] then None
      else map_option (Pair k) (match_rest (dropWhile is_word t)))"

section \<open>Host records: plain objects with string values\<close>

text \<open>
  A host is an ordinary object \<open>{ name: ..., Key: value, ... }\<close>: the name is one property
  among the options.  What a program can see of the property order is the order of
  \<open>Object.entries\<close>: first the keys that are array indices (canonical decimal numerals
  below \<open>2^32 - 1\<close>) in ascending numeric order, then all other keys in the order of their
  creation.  The two groups are kept apart, as engines do.
\<close>

record jsobject =
  elements :: "(jsstring \<times> jsstring) list"
  properties :: "(jsstring \<times> jsstring) list"

type_synonym host = jsobject

definition is_digit :: "jschar \<Rightarrow> bool" where
  "is_digit c = (48 \<le> unat c \<and> unat c \<le> 57)"

definition decimal_value :: "jsstring \<Rightarrow> nat" where
  "decimal_value s = foldl (\<lambda>a c. 10 * a + (unat c - 48)) 0 s"

definition array_index :: "jsstring \<Rightarrow> nat option" where
  "array_index k =
     (if k \<noteq> [] \<and> list_all is_digit k \<and> (length k = 1 \<or> hd k \<noteq> 48) \<and>
         decimal_value k < 4294967295
      then Some (decimal_value k) else None)"

definition entries :: "jsobject \<Rightarrow> (jsstring \<times> jsstring) list" where
  "entries obj = elements obj @ properties obj"

definition keys :: "jsobject \<Rightarrow> jsstring list" where
  "keys obj = map fst (entries obj)"

text \<open>\<open>obj[k]\<close>, None for undefined.\<close>

definition get_prop :: "jsobject \<Rightarrow> jsstring \<Rightarrow> jsstring option" where
  "get_prop obj k = map_of (entries obj) k"

text \<open>Assignment to a key that is not an array index: in place, or a new last property.\<close>

fun put_property :: "jsstring \<Rightarrow> jsstring \<Rightarrow> (jsstring \<times> jsstring) list
    \<Rightarrow> (jsstring \<times> jsstring) list" where
  "put_property k v [] = [(k, v)]"
| "put_property k v ((k', v') # ps) =
     (if k' = k then (k, v) # ps else (k', v') # put_property k v ps)"

text \<open>Assignment to an array index \<open>n\<close>: in place, or at its numeric position.\<close>

fun put_element :: "nat \<Rightarrow> jsstring \<Rightarrow> jsstring \<Rightarrow> (jsstring \<times> jsstring) list
    \<Rightarrow> (jsstring \<times> jsstring) list" where
  "put_element n k v [] = [(k, v)]"
| "put_element n k v ((k', v') # ps) =
     (if k' = k then (k, v) # ps
      else (case array_index k' of
              Some n' \<Rightarrow> if n < n' then (k, v) # (k', v') # ps
                         else (k', v') # put_element n k v ps
            | None \<Rightarrow> (k', v') # put_element n k v ps))"

text \<open>
  \<open>obj[k] = v\<close> with a string \<open>v\<close>.  The key \<open>__proto__\<close> is inherited as an accessor whose
  setter ignores a string, so the assignment does nothing unless the object has an own
  property of that name.
\<close>

definition set_prop :: "jsobject \<Rightarrow> jsstring \<Rightarrow> jsstring \<Rightarrow> jsobject" where
  "set_prop obj k v =
     (if k = js ''__proto__'' \<and> k \<notin> set (keys obj) then obj
      else (case array_index k of
              Some n \<Rightarrow> obj\<lparr>elements := put_element n k v (elements obj)\<rparr>
            | None \<Rightarrow> obj\<lparr>properties := put_property k v (properties obj)\<rparr>))"

text \<open>The object literal \<open>{ name: n }\<close>.\<close>

definition new_host :: "jsstring \<Rightarrow> host" where
  "new_host n = \<lparr>elements = [], properties = [(js ''name'', n)]\<rparr>"

section \<open>parse\<close>

text \<open>
  The state of the loop is \<open>(hosts, current)\<close>; \<open>current\<close> is None for null.  One line of
  the loop body:
\<close>

definition parse_line :: "host list \<times> host option \<Rightarrow> jsstring \<Rightarrow> host list \<times> host option" where
  "parse_line st line =
     (let hosts = fst st; current = snd st; trimmed = trim line in
      if trimmed = [] \<or> take 1 trimmed = js ''#'' then (hosts, current)
      else (case hostMatch trimmed of
              Some n \<Rightarrow>
                ((case current of Some c \<Rightarrow> hosts @ [c] | None \<Rightarrow> hosts), Some (new_host n))
            | None \<Rightarrow>
                (case current of
                   Some c \<Rightarrow>
                     (case optMatch trimmed of
                        Some (k, v) \<Rightarrow> (hosts, Some (set_prop c k v))
                      | None \<Rightarrow> (hosts, current))
                 | None \<Rightarrow> (hosts, current))))"

definition commit :: "host list \<times> host option \<Rightarrow> host list" where
  "commit st = (case snd st of Some c \<Rightarrow> fst st @ [c] | None \<Rightarrow> fst st)"

definition parse :: "jsstring \<Rightarrow> host list" where
  "parse content =
     (if content = [] \<or> trim content = [] then []
      else commit (foldl parse_line ([], None) (split_newline content)))"

section \<open>stringify\<close>

text \<open>String concatenation with a property that may be undefined.\<close>

definition to_text :: "jsstring option \<Rightarrow> jsstring" where
  "to_text x = (case x of Some s \<Rightarrow> s | None \<Rightarrow> js ''undefined'')"

definition option_line :: "jsstring \<times> jsstring \<Rightarrow> jsstring" where
  "option_line kv = js ''    '' @ fst kv @ js '' '' @ snd kv"

text \<open>The entries that pass \<open>key !== 'name'\<close>: the options of a record, in their order.\<close>

definition option_entries :: "host \<Rightarrow> (jsstring \<times> jsstring) list" where
  "option_entries h = filter (\<lambda>kv. fst kv \<noteq> js ''name'') (entries h)"

definition host_lines :: "host \<Rightarrow> jsstring list" where
  "host_lines h =
     (js ''Host '' @ to_text (get_prop h (js ''name''))) #
     map option_line (option_entries h) @ [[]]"

definition stringify :: "host list \<Rightarrow> jsstring" where
  "stringify hosts = join_newline (concat (map host_lines hosts))"

section \<open>Well-formed records\<close>

text \<open>
  What \<open>(.+)$\<close> captures from a trimmed line: a text that is not empty, neither starts
  nor ends with white space, and has no line terminator inside.  Names and values of parsed
  records are of this kind.
\<close>

definition clean :: "jsstring \<Rightarrow> bool" where
  "clean v = (v \<noteq> [] \<and> \<not> is_space (hd v) \<and> \<not> is_space (last v) \<and> \<not> list_ex is_line_terminator v)"

text \<open>
  The keys of parsed options: words that are neither the keyword \<open>Host\<close> in any case
  (such a line opens a record) nor \<open>__proto__\<close> (an assignment without effect).
\<close>

definition wf_key :: "jsstring \<Rightarrow> bool" where
  "wf_key k = (k \<noteq> [] \<and> list_all is_word k \<and> \<not> is_host_keyword k \<and> k \<noteq> js ''__proto__'')"

definition wf_entry :: "jsstring \<times> jsstring \<Rightarrow> bool" where
  "wf_entry kv = (wf_key (fst kv) \<and> clean (snd kv))"

definition index_of :: "jsstring \<Rightarrow> nat" where
  "index_of k = (case array_index k of Some n \<Rightarrow> n | None \<Rightarrow> 0)"

text \<open>
  The shape of every record that \<open>parse\<close> returns: the array indices in ascending
  order, then \<open>name\<close>, then the other options, no key twice.
\<close>

definition wf_elements :: "(jsstring \<times> jsstring) list \<Rightarrow> bool" where
  "wf_elements es =
     (list_all (\<lambda>kv. wf_entry kv \<and> array_index (fst kv) \<noteq> None) es \<and>
      sorted (map (\<lambda>kv. index_of (fst kv)) es) \<and> distinct (map fst es))"

definition wf_options :: "(jsstring \<times> jsstring) list \<Rightarrow> bool" where
  "wf_options ps =
     (list_all (\<lambda>kv. wf_entry kv \<and> array_index (fst kv) = None \<and> fst kv \<noteq> js ''name'') ps \<and>
      distinct (map fst ps))"

definition wf_host :: "host \<Rightarrow> bool" where
  "wf_host h =
     (wf_elements (elements h) \<and>
      (case properties h of
         [] \<Rightarrow> False
       | p # ps \<Rightarrow> fst p = js ''name'' \<and> clean (snd p) \<and> wf_options ps))"

text \<open>The invariant of the loop of \<open>parse\<close>.\<close>

definition wf_state :: "host list \<times> host option \<Rightarrow> bool" where
  "wf_state st = (list_all wf_host (fst st) \<and> (case snd st of None \<Rightarrow> True | Some c \<Rightarrow> wf_host c))"

text \<open>The assignment \<open>current[k] = v\<close> for a pair \<open>(k, v)\<close>.\<close>

definition assign :: "host \<Rightarrow> jsstring \<times> jsstring \<Rightarrow> host" where
  "assign c kv = set_prop c (fst kv) (snd kv)"

section \<open>The encoding of the file\<close>

text \<open>
  The file holds UTF-8.  \<open>fs.writeFileSync\<close> encodes the text it is given, and a
  surrogate that is not half of a pair is encoded as U+FFFD;
  \<open>fs.readFileSync(filePath, 'utf-8')\<close> decodes.  \<open>utf8_text s\<close> is the text that is read
  back after \<open>s\<close> was written: \<open>s\<close> with every lone surrogate replaced by U+FFFD.
\<close>

definition is_high_surrogate :: "jschar \<Rightarrow> bool" where
  "is_high_surrogate c = (55296 \<le> unat c \<and> unat c \<le> 56319)"

definition is_low_surrogate :: "jschar \<Rightarrow> bool" where
  "is_low_surrogate c = (56320 \<le> unat c \<and> unat c \<le> 57343)"

fun utf8_text :: "jsstring \<Rightarrow> jsstring" where
  "utf8_text [] = []"
| "utf8_text [c] = (if is_high_surrogate c \<or> is_low_surrogate c then [65533] else [c])"
| "utf8_text (c # d # cs) =
     (if is_high_surrogate c \<and> is_low_surrogate d then c # d # utf8_text cs
      else if is_high_surrogate c \<or> is_low_surrogate c then 65533 # utf8_text (d # cs)
      else c # utf8_text (d # cs))"

text \<open>A text without lone surrogates: the encoding loses nothing of it.\<close>

definition well_formed :: "jsstring \<Rightarrow> bool" where
  "well_formed s = (utf8_text s = s)"

text \<open>
  A text that a line of the file can carry as a name or a value and give back unchanged:
  not empty, no white space at either end, no line terminator, no lone surrogate.
\<close>

definition line_text :: "jsstring \<Rightarrow> bool" where
  "line_text v = (clean v \<and> well_formed v)"

text \<open>The records that \<open>parse\<close> returns on a decoded text, and the invariant of its loop.\<close>

definition host_text :: "host \<Rightarrow> bool" where
  "host_text h = list_all (\<lambda>kv. well_formed (snd kv)) (entries h)"

definition stored_host :: "host \<Rightarrow> bool" where
  "stored_host h = (wf_host h \<and> host_text h)"

definition text_state :: "host list \<times> host option \<Rightarrow> bool" where
  "text_state st = (list_all host_text (fst st) \<and> (case snd st of None \<Rightarrow> True | Some c \<Rightarrow> host_text c))"

section \<open>The configuration file\<close>

text \<open>
  The state between two calls is the file alone: None when it does not exist, otherwise
  the text that its bytes decode to.  \<open>write_file\<close> (the source's \<open>write\<close>) stores the
  UTF-8 encoding of the text of \<open>stringify\<close>, so the file then decodes to \<open>utf8_text\<close> of
  it.  \<open>read\<close> decodes the file and parses the result; decoding changes nothing of a text
  that is itself a decoding.
\<close>

type_synonym config_file = "jsstring option"

definition read :: "config_file \<Rightarrow> host list" where
  "read f = (case f of None \<Rightarrow> [] | Some content \<Rightarrow> parse (utf8_text content))"

definition write_file :: "host list \<Rightarrow> config_file" where
  "write_file hosts = Some (utf8_text (stringify hosts))"

section \<open>The operations\<close>

text \<open>
  A failed operation returns \<open>{ success: false, message }\<close>; the messages are
  \<open>'Host already exists: ' + name\<close> (the specification's DuplicateError),
  \<open>'Host not found: ' + name\<close> (NotFoundError), \<open>'Invalid JSON'\<close> (DecodeError) and
  \<open>'Expected array of hosts'\<close> (ShapeError).  \<open>TypeError\<close> is not returned but thrown, by
  \<open>stringify\<close> on a value it cannot handle.
\<close>

datatype error = HostExists jsstring | HostNotFound jsstring | InvalidJSON | ExpectedArray
  | TypeError

text \<open>
  The \<open>options\<close> argument of \<open>addHost\<close> and \<open>editHost\<close>: eight properties are read, each
  a string or undefined (None).
\<close>

record options =
  host :: "jsstring option"
  HostName :: "jsstring option"
  user :: "jsstring option"
  User :: "jsstring option"
  port :: "jsstring option"
  Port :: "jsstring option"
  identity :: "jsstring option"
  IdentityFile :: "jsstring option"

text \<open>\<open>a || b\<close> on strings and undefined: undefined and the empty string are falsy.\<close>

definition truthy :: "jsstring option \<Rightarrow> bool" where
  "truthy x = (case x of None \<Rightarrow> False | Some s \<Rightarrow> s \<noteq> [])"

definition or_else :: "jsstring option \<Rightarrow> jsstring option \<Rightarrow> jsstring option" where
  "or_else a b = (if truthy a then a else b)"

text \<open>\<open>if (x) { host[k] = x; }\<close>, with \<open>String(x) = x\<close> for the port.\<close>

definition set_field :: "host \<Rightarrow> jsstring \<Rightarrow> jsstring option \<Rightarrow> host" where
  "set_field h k x = (if truthy x then set_prop h k (the x) else h)"

text \<open>The four conditional assignments that \<open>addHost\<close> and \<open>editHost\<close> share.\<close>

definition apply_options :: "host \<Rightarrow> options \<Rightarrow> host" where
  "apply_options h opts =
     (let h1 = set_field h (js ''HostName'') (or_else (host opts) (HostName opts));
          h2 = set_field h1 (js ''User'') (or_else (user opts) (User opts));
          h3 = set_field h2 (js ''Port'') (or_else (port opts) (Port opts));
          h4 = set_field h3 (js ''IdentityFile'') (or_else (identity opts) (IdentityFile opts))
      in h4)"

text \<open>\<open>h => h.name === name\<close>.\<close>

definition named :: "jsstring \<Rightarrow> host \<Rightarrow> bool" where
  "named name h = (get_prop h (js ''name'') = Some name)"

text \<open>\<open>hosts.findIndex(p)\<close>, None for \<open>-1\<close>.\<close>

fun findIndex :: "('a \<Rightarrow> bool) \<Rightarrow> 'a list \<Rightarrow> nat option" where
  "findIndex p [] = None"
| "findIndex p (x # xs) = (if p x then Some 0 else map_option Suc (findIndex p xs))"

definition addHost :: "jsstring \<Rightarrow> options \<Rightarrow> config_file \<Rightarrow> (error + host) \<times> config_file" where
  "addHost name opts f =
     (let hosts = read f in
      case find (named name) hosts of
        Some existing \<Rightarrow> (Inl (HostExists name), f)
      | None \<Rightarrow>
          (let h = apply_options (new_host name) opts
           in (Inr h, write_file (hosts @ [h]))))"

text \<open>
  \<open>hosts.find\<close> returns the first matching object itself, and the assignments change it
  inside the array: the model replaces that element.
\<close>

definition editHost :: "jsstring \<Rightarrow> options \<Rightarrow> config_file \<Rightarrow> (error + host) \<times> config_file" where
  "editHost name opts f =
     (let hosts = read f in
      case findIndex (named name) hosts of
        None \<Rightarrow> (Inl (HostNotFound name), f)
      | Some i \<Rightarrow>
          (let h = apply_options (hosts ! i) opts
           in (Inr h, write_file (hosts[i := h]))))"

definition removeHost :: "jsstring \<Rightarrow> config_file \<Rightarrow> (error + unit) \<times> config_file" where
  "removeHost name f =
     (let hosts = read f in
      case findIndex (named name) hosts of
        None \<Rightarrow> (Inl (HostNotFound name), f)
      | Some index \<Rightarrow> (Inr (), write_file (take index hosts @ drop (Suc index) hosts)))"

definition getHost :: "jsstring \<Rightarrow> config_file \<Rightarrow> host option" where
  "getHost name f = find (named name) (read f)"

definition listHosts :: "config_file \<Rightarrow> jsstring option list" where
  "listHosts f = map (\<lambda>h. get_prop h (js ''name'')) (read f)"

text \<open>
  \<open>{ ...source, name: to }\<close> copies the properties of \<open>source\<close> in their order into a
  new object and then defines \<open>name\<close>.
\<close>

definition copyHost :: "jsstring \<Rightarrow> jsstring \<Rightarrow> config_file \<Rightarrow> (error + host) \<times> config_file" where
  "copyHost from to f =
     (let hosts = read f in
      case find (named from) hosts of
        None \<Rightarrow> (Inl (HostNotFound from), f)
      | Some source \<Rightarrow>
          (case find (named to) hosts of
             Some existing \<Rightarrow> (Inl (HostExists to), f)
           | None \<Rightarrow>
               (let newHost = set_prop source (js ''name'') to
                in (Inr newHost, write_file (hosts @ [newHost])))))"

section \<open>The vocabulary of the claims about the operations\<close>

text \<open>The four recognized fields, under the keys that \<open>addHost\<close> and \<open>editHost\<close> assign.\<close>

definition recognized :: "jsstring list" where
  "recognized = [js ''HostName'', js ''User'', js ''Port'', js ''IdentityFile'']"

text \<open>
  The value that the operations compute for a recognized key, \<open>options.host ||
  options.HostName\<close> and so on; it is supplied when it is truthy.
\<close>

definition field_value :: "options \<Rightarrow> jsstring \<Rightarrow> jsstring option" where
  "field_value opts k =
     (if k = js ''HostName'' then or_else (host opts) (HostName opts)
      else if k = js ''User'' then or_else (user opts) (User opts)
      else if k = js ''Port'' then or_else (port opts) (Port opts)
      else if k = js ''IdentityFile'' then or_else (identity opts) (IdentityFile opts)
      else None)"

definition supplied :: "options \<Rightarrow> jsstring \<Rightarrow> jsstring option" where
  "supplied opts k = (if truthy (field_value opts k) then field_value opts k else None)"

text \<open>Options whose supplied values are texts that a line of the file can carry.\<close>

definition clean_options :: "options \<Rightarrow> bool" where
  "clean_options opts =
     list_all (\<lambda>k. case supplied opts k of None \<Rightarrow> True | Some v \<Rightarrow> line_text v) recognized"

text \<open>
  Array indices are kept among the elements and all other keys among the properties;
  every assignment keeps it so.
\<close>

definition key_split :: "jsobject \<Rightarrow> bool" where
  "key_split h =
     (list_all (\<lambda>kv. array_index (fst kv) \<noteq> None) (elements h) \<and>
      list_all (\<lambda>kv. array_index (fst kv) = None) (properties h))"

text \<open>The first record with a given name, with the records before and after it.\<close>

definition first_named :: "jsstring \<Rightarrow> host list \<Rightarrow> host list \<Rightarrow> host \<Rightarrow> host list \<Rightarrow> bool" where
  "first_named name hosts xs h ys =
     (hosts = xs @ h # ys \<and> named name h \<and> \<not> list_ex (named name) xs)"

text \<open>An \<open>options\<close> object with none of the eight properties.\<close>

definition no_options :: options where
  "no_options = \<lparr>host = None, HostName = None, user = None, User = None, port = None,
     Port = None, identity = None, IdentityFile = None\<rparr>"

section \<open>importConfig\<close>

text \<open>
  What \<open>JSON.parse\<close> returns.  A number carries the text that string conversion gives
  for it, the only thing done with it here; an object lists its properties in the order
  of \<open>Object.entries\<close>.
\<close>

datatype json = JNull | JBool bool | JNumber jsstring | JString jsstring
  | JArray "json list" | JObject "(jsstring \<times> json) list"

text \<open>
  The decoded value as it reaches \<open>Array.isArray\<close>: None when \<open>JSON.parse\<close> throws.
\<close>

type_synonym decoded = "json option"

text \<open>The key of the \<open>n\<close>-th element of an array or character of a string.\<close>

function decimal :: "nat \<Rightarrow> jsstring" where
  "decimal n = (if n < 10 then [of_nat (48 + n)]
                else decimal (n div 10) @ [of_nat (48 + n mod 10)])"
  by pat_completeness auto
termination
  by (relation "measure id") auto

fun join_comma :: "jsstring list \<Rightarrow> jsstring" where
  "join_comma [] = []"
| "join_comma [l] = l"
| "join_comma (l # ls) = l @ 44 # join_comma ls"

text \<open>
  String conversion, as \<open>+\<close> applies it to a decoded value; None when it throws a
  TypeError.  An array is joined with commas, \<open>null\<close> elements giving the empty text.  An
  object gives \<open>[object Object]\<close> through the inherited \<open>toString\<close>; an own property of
  that name hides it and, coming from JSON, cannot be called.
\<close>

fun json_text :: "json \<Rightarrow> jsstring option" where
  "json_text JNull = Some (js ''null'')"
| "json_text (JBool b) = Some (if b then js ''true'' else js ''false'')"
| "json_text (JNumber t) = Some t"
| "json_text (JString s) = Some s"
| "json_text (JArray xs) =
     map_option join_comma
       (those (map (\<lambda>x. if x = JNull then Some [] else json_text x) xs))"
| "json_text (JObject ps) =
     (if js ''toString'' \<in> fst ` set ps then None else Some (js ''[object Object]''))"

text \<open>
  \<open>'Host ' + host.name\<close>: reading a property of \<open>null\<close> throws; only an object from JSON
  can have a property \<open>name\<close>.
\<close>

definition json_name_text :: "json \<Rightarrow> jsstring option" where
  "json_name_text h =
     (case h of
        JNull \<Rightarrow> None
      | JObject ps \<Rightarrow>
          (case map_of ps (js ''name'') of
             None \<Rightarrow> Some (js ''undefined'')
           | Some v \<Rightarrow> json_text v)
      | _ \<Rightarrow> Some (js ''undefined''))"

text \<open>\<open>Object.entries(host)\<close> for a value other than \<open>null\<close>.\<close>

definition json_entries :: "json \<Rightarrow> (jsstring \<times> json) list" where
  "json_entries h =
     (case h of
        JObject ps \<Rightarrow> ps
      | JArray xs \<Rightarrow> zip (map decimal [0..<length xs]) xs
      | JString s \<Rightarrow> zip (map decimal [0..<length s]) (map (\<lambda>c. JString [c]) s)
      | _ \<Rightarrow> [])"

definition json_option_line :: "jsstring \<times> json \<Rightarrow> jsstring option" where
  "json_option_line kv =
     map_option (\<lambda>t. js ''    '' @ fst kv @ js '' '' @ t) (json_text (snd kv))"

definition json_host_lines :: "json \<Rightarrow> jsstring list option" where
  "json_host_lines h =
     (case json_name_text h of
        None \<Rightarrow> None
      | Some n \<Rightarrow>
          (case those (map json_option_line
                        (filter (\<lambda>kv. fst kv \<noteq> js ''name'') (json_entries h))) of
             None \<Rightarrow> None
           | Some ls \<Rightarrow> Some ((js ''Host '' @ n) # ls @ [[]])))"

text \<open>
  \<open>stringify\<close> on the elements of a decoded array, which need not be host records:
  the same loop, where each property access and concatenation may throw.  On host
  records it is \<open>stringify\<close> (lemma \<open>stringify_json_hosts\<close>).
\<close>

definition stringify_json :: "json list \<Rightarrow> jsstring option" where
  "stringify_json hosts =
     map_option (\<lambda>ls. join_newline (concat ls)) (those (map json_host_lines hosts))"

text \<open>A host record as a decoded value.\<close>

definition to_json :: "host \<Rightarrow> json" where
  "to_json h = JObject (map (\<lambda>kv. (fst kv, JString (snd kv))) (entries h))"

text \<open>
  \<open>importConfig(data)\<close>, from the outcome \<open>d\<close> of \<open>JSON.parse(data)\<close> on.  A TypeError of
  \<open>stringify\<close> leaves \<open>write\<close> before the file is touched; otherwise the file is written
  as \<open>write_file\<close> does.
\<close>

definition importConfig :: "decoded \<Rightarrow> config_file \<Rightarrow> (error + nat) \<times> config_file" where
  "importConfig d f =
     (case d of
        None \<Rightarrow> (Inl InvalidJSON, f)
      | Some v \<Rightarrow>
          (case v of
             JArray hosts \<Rightarrow>
               (case stringify_json hosts of
                  None \<Rightarrow> (Inl TypeError, f)
                | Some content \<Rightarrow> (Inr (length hosts), Some (utf8_text content)))
           | _ \<Rightarrow> (Inl ExpectedArray, f)))"

section \<open>Properties of the parser and the serializer\<close>

subsection \<open>Characters\<close>

lemma word_not_space: "is_word c \<Longrightarrow> \<not> is_space c"
  by (auto simp: is_word_def is_space_def Let_def)

lemma line_terminator_space: "is_line_terminator c \<Longrightarrow> is_space c"
  by (auto simp: is_line_terminator_def is_space_def Let_def)

lemma newline_line_terminator: "is_line_terminator newline"
  by (simp add: is_line_terminator_def newline_def)

lemma blank_space: "is_space 32" "\<not> is_line_terminator 32" "\<not> is_word 32"
  by (simp_all add: is_space_def is_line_terminator_def is_word_def)

lemma js_literals:
  "js ''Host '' = [72, 111, 115, 116, 32]"
  "js ''name'' = [110, 97, 109, 101]"
  "js ''    '' = [32, 32, 32, 32]"
  "js '' '' = [32]"
  "js ''#'' = [35]"
  "js ''__proto__'' = [95, 95, 112, 114, 111, 116, 111, 95, 95]"
  by (simp_all add: js_def)

subsection \<open>trim\<close>

lemma all_dropWhile: "(\<forall>x\<in>set (dropWhile P s). P x) \<longleftrightarrow> (\<forall>x\<in>set s. P x)"
  by (induction s) auto

lemma trim_Nil_iff: "trim s = [] \<longleftrightarrow> list_all is_space s"
  by (simp add: trim_def dropWhile_eq_Nil_conv list_all_iff all_dropWhile)

lemma trim_ends:
  assumes "trim s \<noteq> []"
  shows "\<not> is_space (hd (trim s))" and "\<not> is_space (last (trim s))"
proof -
  let ?d = "dropWhile is_space s"
  have d: "?d \<noteq> []" using assms by (cases "dropWhile is_space s") (simp_all add: trim_def)
  have r: "dropWhile is_space (rev ?d) \<noteq> []" using assms by (simp add: trim_def)
  have "\<not> is_space (hd (dropWhile is_space (rev ?d)))" using r by (rule hd_dropWhile)
  then show "\<not> is_space (last (trim s))" using r by (simp add: trim_def last_rev)
  have hd_d: "\<not> is_space (hd ?d)" using d by (rule hd_dropWhile)
  have "\<not> is_space (last (rev ?d))" using d hd_d by (simp add: last_rev)
  obtain ys where ys: "rev ?d = takeWhile is_space (rev ?d) @ ys" "ys = dropWhile is_space (rev ?d)"
    by simp
  have "last (dropWhile is_space (rev ?d)) = last (rev ?d)"
    using r by (metis last_appendR takeWhile_dropWhile_id)
  then have "hd (trim s) = hd ?d" using r d by (simp add: trim_def hd_rev last_rev)
  then show "\<not> is_space (hd (trim s))" using hd_d by simp
qed

lemma trim_id: "s \<noteq> [] \<Longrightarrow> \<not> is_space (hd s) \<Longrightarrow> \<not> is_space (last s) \<Longrightarrow> trim s = s"
proof -
  assume a: "s \<noteq> []" "\<not> is_space (hd s)" "\<not> is_space (last s)"
  then have "dropWhile is_space s = s" by (cases s) auto
  moreover have "dropWhile is_space (rev s) = rev s" using a by (cases "rev s") (auto simp: hd_rev)
  ultimately show ?thesis by (simp add: trim_def)
qed

lemma trim_spaces_append: "list_all is_space w \<Longrightarrow> trim (w @ s) = trim s"
  by (simp add: trim_def dropWhile_append list_all_iff)

subsection \<open>split and join\<close>

lemma split_newline_no_newline: "newline \<notin> set l \<Longrightarrow> split_newline l = [l]"
  by (induction l) auto

lemma split_newline_append:
  "newline \<notin> set l \<Longrightarrow> split_newline (l @ newline # r) = l # split_newline r"
  by (induction l) auto

lemma split_join_newline:
  "ls \<noteq> [] \<Longrightarrow> list_all (\<lambda>l. newline \<notin> set l) ls \<Longrightarrow> split_newline (join_newline ls) = ls"
  by (induction ls rule: join_newline.induct)
     (simp_all add: split_newline_no_newline split_newline_append)


subsection \<open>The regular expressions\<close>

lemma takeWhile_hd_Nil: "v \<noteq> [] \<Longrightarrow> \<not> P (hd v) \<Longrightarrow> takeWhile P v = []"
  by (cases v) auto

lemma dropWhile_hd_id: "v \<noteq> [] \<Longrightarrow> \<not> P (hd v) \<Longrightarrow> dropWhile P v = v"
  by (cases v) auto

lemma match_rest_intro:
  assumes "w \<noteq> []" "list_all is_space w" "v \<noteq> []" "\<not> is_space (hd v)"
    "\<not> list_ex is_line_terminator v"
  shows "match_rest (w @ v) = Some v"
proof -
  have all: "\<forall>x\<in>set w. is_space x" using assms(2) by (simp add: list_all_iff)
  have "takeWhile is_space (w @ v) = w"
    using all assms(3,4) by (simp add: takeWhile_append2 takeWhile_hd_Nil)
  moreover have "dropWhile is_space (w @ v) = v"
    using all assms(3,4) by (simp add: dropWhile_append2 dropWhile_hd_id)
  ultimately show ?thesis using assms by (simp add: match_rest_def)
qed

lemma match_rest_SomeD:
  assumes last: "r \<noteq> [] \<longrightarrow> \<not> is_space (last r)" and m: "match_rest r = Some v"
  shows "clean v \<and> (\<exists>w. w \<noteq> [] \<and> list_all is_space w \<and> r = w @ v)"
proof -
  let ?w = "takeWhile is_space r" and ?v = "dropWhile is_space r"
  have w: "?w \<noteq> []" using m by (auto simp: match_rest_def Let_def split: if_splits)
  then have r: "r \<noteq> []" by auto
  have v: "?v \<noteq> []"
  proof
    assume "?v = []"
    then have "\<forall>x\<in>set r. is_space x" by (simp add: dropWhile_eq_Nil_conv)
    then have "is_space (last r)" using r by simp
    then show False using last r by simp
  qed
  have eq: "v = ?v" and lt: "\<not> list_ex is_line_terminator ?v"
    using m w v by (auto simp: match_rest_def Let_def split: if_splits)
  have "last ?v = last r" using v by (metis last_appendR takeWhile_dropWhile_id)
  then have "clean ?v" using v lt last r hd_dropWhile[OF v] by (simp add: clean_def)
  moreover have "list_all is_space ?w" by (simp add: list_all_iff) (meson set_takeWhileD)
  moreover have "r = ?w @ ?v" by simp
  ultimately show ?thesis using w eq by blast
qed

lemma host_keyword_word: "is_host_keyword x \<Longrightarrow> length x = 4 \<and> list_all is_word x"
  by (auto simp: is_host_keyword_def is_word_def split: list.splits)

lemma host_keyword_Host: "is_host_keyword [72, 111, 115, 116]"
  by (simp add: is_host_keyword_def)

lemma hostMatch_clean:
  assumes "t \<noteq> []" "\<not> is_space (last t)" "hostMatch t = Some n"
  shows "clean n"
proof -
  have m: "match_rest (drop 4 t) = Some n" using assms(3) by (auto simp: hostMatch_def split: if_splits)
  have "drop 4 t \<noteq> [] \<longrightarrow> \<not> is_space (last (drop 4 t))" using assms(2) by simp
  then show ?thesis using m match_rest_SomeD by blast
qed

lemma hostMatch_Host_line: "clean n \<Longrightarrow> hostMatch (js ''Host '' @ n) = Some n"
  using match_rest_intro[of "[32]" n]
  by (simp add: hostMatch_def js_literals host_keyword_Host clean_def blank_space)

lemma optMatch_SomeD:
  assumes "t \<noteq> []" "\<not> is_space (last t)" "optMatch t = Some (k, v)"
  shows "k \<noteq> [] \<and> list_all is_word k \<and> clean v \<and> (\<exists>w. w \<noteq> [] \<and> list_all is_space w \<and> t = k @ w @ v)"
proof -
  let ?r = "dropWhile is_word t"
  have k: "k = takeWhile is_word t" "k \<noteq> []" and m: "match_rest ?r = Some v"
    using assms(3) by (auto simp: optMatch_def Let_def split: if_splits)
  have "?r \<noteq> [] \<longrightarrow> last ?r = last t" by (metis last_appendR takeWhile_dropWhile_id)
  then have "?r \<noteq> [] \<longrightarrow> \<not> is_space (last ?r)" using assms(2) by simp
  from match_rest_SomeD[OF this m] obtain w where
    w: "clean v" "w \<noteq> []" "list_all is_space w" "?r = w @ v" by blast
  have "t = k @ w @ v" using k(1) w(4) by (metis takeWhile_dropWhile_id)
  moreover have "list_all is_word k" using k(1) by (simp add: list_all_iff) (meson set_takeWhileD)
  ultimately show ?thesis using k(2) w by blast
qed

lemma optMatch_keyword:
  assumes "optMatch t = Some (k, v)" "is_host_keyword k"
  shows "hostMatch t = Some v"
proof -
  let ?r = "dropWhile is_word t"
  have k: "k = takeWhile is_word t" and m: "match_rest ?r = Some v"
    using assms(1) by (auto simp: optMatch_def Let_def split: if_splits)
  have t: "t = k @ ?r" using k by simp
  have len: "length k = 4" using assms(2) host_keyword_word by blast
  have "take 4 t = k" using len by (subst t) simp
  moreover have "drop 4 t = ?r" using len by (subst t) simp
  ultimately show ?thesis using m assms(2) by (simp add: hostMatch_def)
qed

lemma optMatch_intro:
  assumes "k \<noteq> []" "list_all is_word k" "w \<noteq> []" "list_all is_space w"
    "v \<noteq> []" "\<not> is_space (hd v)" "\<not> list_ex is_line_terminator v"
  shows "optMatch (k @ w @ v) = Some (k, v)"
proof -
  have allk: "\<forall>x\<in>set k. is_word x" using assms(2) by (simp add: list_all_iff)
  have "is_space (hd w)" using assms(3,4) by (cases w) auto
  then have nw: "\<not> is_word (hd (w @ v))" using assms(3) word_not_space by auto
  have "takeWhile is_word (k @ w @ v) = k"
    using allk nw assms(3) by (simp add: takeWhile_append2 takeWhile_hd_Nil)
  moreover have "dropWhile is_word (k @ w @ v) = w @ v"
    using allk nw assms(3) by (simp add: dropWhile_append2 dropWhile_hd_id)
  ultimately show ?thesis
    using assms match_rest_intro[of w v] by (simp add: optMatch_def)
qed

lemma hostMatch_not_keyword:
  assumes "list_all is_word k" "\<not> is_host_keyword k" "w \<noteq> []" "list_all is_space w"
  shows "hostMatch (k @ w @ v) = None"
proof (rule ccontr)
  assume "hostMatch (k @ w @ v) \<noteq> None"
  then have kw: "is_host_keyword (take 4 (k @ w @ v))"
    and m: "match_rest (drop 4 (k @ w @ v)) \<noteq> None"
    by (auto simp: hostMatch_def split: if_splits)
  have sp: "is_space (hd w)" using assms(3,4) by (cases w) auto
  consider "length k < 4" | "length k = 4" | "4 < length k" by linarith
  then show False
  proof cases
    case 1
    then have "take 4 (k @ w @ v) = k @ take (4 - length k) (w @ v)" by simp
    moreover have "hd w \<in> set (take (4 - length k) (w @ v))"
      using 1 assms(3) by (cases w; cases "4 - length k") auto
    ultimately have "hd w \<in> set (take 4 (k @ w @ v))" by simp
    then have "is_word (hd w)" using host_keyword_word[OF kw] by (simp add: list_all_iff)
    then show False using sp word_not_space by blast
  next
    case 2
    then have "take 4 (k @ w @ v) = k" by simp
    then show False using kw assms(2) by simp
  next
    case 3
    then have d: "drop 4 (k @ w @ v) = drop 4 k @ w @ v" "drop 4 k \<noteq> []" by simp_all
    have "hd (drop 4 k) \<in> set k" using d(2) by (metis hd_in_set in_set_dropD)
    then have "is_word (hd (drop 4 k))" using assms(1) by (simp add: list_all_iff)
    then have "\<not> is_space (hd (drop 4 k @ w @ v))" using d(2) word_not_space by auto
    then have "takeWhile is_space (drop 4 (k @ w @ v)) = []"
      using d by (simp add: takeWhile_hd_Nil)
    then show False using m by (simp add: match_rest_def)
  qed
qed


subsection \<open>Property assignment\<close>

lemma name_not_index: "array_index (js ''name'') = None"
  by (simp add: array_index_def js_literals is_digit_def)

lemma put_property_fresh: "k \<notin> fst ` set ps \<Longrightarrow> put_property k v ps = ps @ [(k, v)]"
  by (induction ps) auto

lemma put_element_last:
  "k \<notin> fst ` set es \<Longrightarrow> \<forall>kv\<in>set es. array_index (fst kv) \<noteq> None \<and> index_of (fst kv) \<le> n
    \<Longrightarrow> put_element n k v es = es @ [(k, v)]"
  by (induction es) (auto simp: index_of_def split: option.splits)

lemma set_put_property: "set (put_property k v ps) \<subseteq> insert (k, v) (set ps)"
  by (induction ps) (auto split: if_splits)

lemma keys_put_property:
  "map fst (put_property k v ps) = (if k \<in> fst ` set ps then map fst ps else map fst ps @ [k])"
  by (induction ps) force+

lemma wf_options_put:
  assumes "wf_options ps" "wf_entry (k, v)" "array_index k = None" "k \<noteq> js ''name''"
  shows "wf_options (put_property k v ps)"
proof -
  have "\<forall>kv\<in>set (put_property k v ps). wf_entry kv \<and> array_index (fst kv) = None \<and> fst kv \<noteq> js ''name''"
    using assms set_put_property[of k v ps] by (auto simp: wf_options_def list_all_iff)
  moreover have "distinct (map fst (put_property k v ps))"
    using assms(1) by (auto simp: keys_put_property wf_options_def)
  ultimately show ?thesis by (simp add: wf_options_def list_all_iff)
qed

lemma set_put_element: "set (put_element n k v es) \<subseteq> insert (k, v) (set es)"
  by (induction es) (auto split: option.splits if_splits)

lemma put_element_sorted:
  "array_index k = Some n \<Longrightarrow> sorted (map (\<lambda>kv. index_of (fst kv)) es)
    \<Longrightarrow> sorted (map (\<lambda>kv. index_of (fst kv)) (put_element n k v es))"
proof (induction es)
  case Nil
  then show ?case by simp
next
  case (Cons e es)
  have sub: "set (put_element n k v es) \<subseteq> insert (k, v) (set es)" by (rule set_put_element)
  show ?case
  proof (cases "fst e = k")
    case True
    then show ?thesis using Cons.prems by (cases e) (auto simp: index_of_def)
  next
    case False
    show ?thesis
    proof (cases "array_index (fst e)")
      case None
      then have "index_of (fst e) = 0" by (simp add: index_of_def)
      then show ?thesis using False None Cons sub by (cases e) auto
    next
      case (Some n')
      then have i: "index_of (fst e) = n'" by (simp add: index_of_def)
      have ik: "index_of k = n" using Cons.prems(1) by (simp add: index_of_def)
      show ?thesis
      proof (cases "n < n'")
        case True
        then show ?thesis using False Some Cons.prems i ik by (cases e) auto
      next
        case nlt: False
        have "\<forall>x\<in>set (put_element n k v es). index_of (fst e) \<le> index_of (fst x)"
          using sub Cons.prems(2) nlt i ik by auto
        then show ?thesis using False Some nlt Cons by (cases e) auto
      qed
    qed
  qed
qed

lemma put_element_distinct:
  "array_index k = Some n \<Longrightarrow> sorted (map (\<lambda>kv. index_of (fst kv)) es)
    \<Longrightarrow> distinct (map fst es) \<Longrightarrow> distinct (map fst (put_element n k v es))"
proof (induction es)
  case Nil
  then show ?case by simp
next
  case (Cons e es)
  have sub: "set (put_element n k v es) \<subseteq> insert (k, v) (set es)" by (rule set_put_element)
  have ik: "index_of k = n" using Cons.prems(1) by (simp add: index_of_def)
  show ?case
  proof (cases "fst e = k")
    case True
    then show ?thesis using Cons.prems by (cases e) auto
  next
    case False
    have rest: "fst e \<notin> fst ` set (put_element n k v es)"
    proof
      assume "fst e \<in> fst ` set (put_element n k v es)"
      then obtain x where x: "x \<in> set (put_element n k v es)" "fst x = fst e" by force
      then have "x = (k, v) \<or> x \<in> set es" using sub by blast
      then show False using x(2) False Cons.prems(3) by (cases e) force
    qed
    show ?thesis
    proof (cases "array_index (fst e)")
      case None
      then show ?thesis using False Cons rest by (cases e) auto
    next
      case (Some n')
      then have i: "index_of (fst e) = n'" by (simp add: index_of_def)
      show ?thesis
      proof (cases "n < n'")
        case True
        have "\<forall>x\<in>set es. index_of (fst x) \<noteq> index_of k"
          using Cons.prems(2) True i ik by auto
        then have "k \<notin> fst ` set es" by auto
        then show ?thesis using False Some True Cons.prems by (cases e) auto
      next
        case nlt: False
        then show ?thesis using False Some Cons rest by (cases e) auto
      qed
    qed
  qed
qed

lemma wf_elements_put:
  assumes "wf_elements es" "wf_entry (k, v)" "array_index k = Some n"
  shows "wf_elements (put_element n k v es)"
proof -
  have "\<forall>kv\<in>set (put_element n k v es). wf_entry kv \<and> array_index (fst kv) \<noteq> None"
    using assms set_put_element[of n k v es] by (auto simp: wf_elements_def list_all_iff)
  then show ?thesis
    using assms put_element_sorted[of k n es v] put_element_distinct[of k n es v]
    by (simp add: wf_elements_def list_all_iff)
qed

lemma wf_key_not_keys: "wf_host h \<Longrightarrow> js ''__proto__'' \<notin> set (keys h)"
  by (cases "properties h")
     (auto simp: wf_host_def wf_elements_def wf_options_def wf_entry_def wf_key_def keys_def
       entries_def list_all_iff js_literals)

lemma wf_host_new: "clean n \<Longrightarrow> wf_host (new_host n)"
  by (simp add: wf_host_def new_host_def wf_elements_def wf_options_def)

lemma wf_host_set_prop:
  assumes "wf_host h" "k \<noteq> []" "list_all is_word k" "\<not> is_host_keyword k" "clean v"
  shows "wf_host (set_prop h k v)"
proof (cases "k = js ''__proto__''")
  case True
  then show ?thesis using assms(1) wf_key_not_keys by (simp add: set_prop_def)
next
  case False
  then have e: "wf_entry (k, v)" using assms by (simp add: wf_entry_def wf_key_def)
  obtain p ps where p: "properties h = p # ps" "fst p = js ''name''" "clean (snd p)" "wf_options ps"
    using assms(1) by (cases "properties h") (auto simp: wf_host_def)
  show ?thesis
  proof (cases "array_index k")
    case (Some n)
    then show ?thesis
      using False assms(1) e wf_elements_put by (simp add: set_prop_def wf_host_def)
  next
    case None
    show ?thesis
    proof (cases "k = js ''name''")
      case True
      then show ?thesis
        using None False assms p by (cases p) (simp add: set_prop_def wf_host_def)
    next
      case nn: False
      then show ?thesis
        using None False assms(1) p e wf_options_put[of ps k v]
        by (cases p) (auto simp: set_prop_def wf_host_def)
    qed
  qed
qed


subsection \<open>What parse returns is well formed\<close>

lemma parse_line_wf:
  assumes "wf_state st"
  shows "wf_state (parse_line st line)"
proof (cases "trim line = [] \<or> take 1 (trim line) = js ''#''")
  case True
  then show ?thesis using assms by (cases st) (auto simp: parse_line_def)
next
  case False
  then have t: "trim line \<noteq> []" "\<not> is_space (last (trim line))"
    using trim_ends(2)[of line] by auto
  show ?thesis
  proof (cases "hostMatch (trim line)")
    case (Some n)
    then have "clean n" using t hostMatch_clean by blast
    then have "wf_host (new_host n)" by (rule wf_host_new)
    then show ?thesis
      using assms False Some
      by (cases st) (auto simp: parse_line_def wf_state_def split: option.splits)
  next
    case None
    show ?thesis
    proof (cases "snd st")
      case cur: None
      then show ?thesis using assms False None by (cases st) (auto simp: parse_line_def)
    next
      case cur: (Some c)
      show ?thesis
      proof (cases "optMatch (trim line)")
        case om: None
        then show ?thesis using assms False None cur by (cases st) (auto simp: parse_line_def)
      next
        case om: (Some kv)
        obtain k v where kv: "kv = (k, v)" by (cases kv)
        have d: "k \<noteq> []" "list_all is_word k" "clean v"
          using optMatch_SomeD[OF t] om kv by blast+
        have "\<not> is_host_keyword k" using optMatch_keyword[of "trim line" k v] om kv None by auto
        moreover have "wf_host c" using assms cur by (simp add: wf_state_def)
        ultimately have "wf_host (set_prop c k v)" using d wf_host_set_prop by blast
        then show ?thesis
          using assms False None cur om kv by (cases st) (auto simp: parse_line_def wf_state_def)
      qed
    qed
  qed
qed

lemma foldl_parse_line_wf: "wf_state st \<Longrightarrow> wf_state (foldl parse_line st ls)"
  by (induction ls arbitrary: st) (simp_all add: parse_line_wf)

lemma commit_wf: "wf_state st \<Longrightarrow> list_all wf_host (commit st)"
  by (cases st) (auto simp: wf_state_def commit_def split: option.splits)

lemma parse_wf: "list_all wf_host (parse content)"
proof -
  have "wf_state ([], None)" by (simp add: wf_state_def)
  then show ?thesis by (simp add: parse_def foldl_parse_line_wf commit_wf)
qed

subsection \<open>Reading back a line that stringify wrote\<close>

lemma clean_no_newline: "clean v \<Longrightarrow> newline \<notin> set v"
  using newline_line_terminator by (auto simp: clean_def list_ex_iff)

lemma word_no_newline: "list_all is_word k \<Longrightarrow> newline \<notin> set k"
  using newline_line_terminator line_terminator_space word_not_space
  by (auto simp: list_all_iff)

lemma H_not_space: "\<not> is_space 72" "\<not> is_space 35" "\<not> is_word 35"
  by (simp_all add: is_space_def is_word_def)

lemma parse_line_Host:
  assumes "clean n"
  shows "parse_line st (js ''Host '' @ n) = (commit st, Some (new_host n))"
proof -
  have "trim (js ''Host '' @ n) = js ''Host '' @ n"
    using assms by (intro trim_id) (simp_all add: js_literals clean_def H_not_space)
  then have t: "trim (js ''Host '' @ n) = [72, 111, 115, 116, 32] @ n" by (simp add: js_literals)
  have hm: "hostMatch ([72, 111, 115, 116, 32] @ n) = Some n"
    using hostMatch_Host_line[OF assms] by (simp add: js_literals)
  show ?thesis
    unfolding parse_line_def Let_def t hm
    by (cases st) (simp add: commit_def js_literals split: option.splits)
qed

lemma parse_line_option:
  assumes "wf_entry (k, v)"
  shows "parse_line (hs, Some c) (option_line (k, v)) = (hs, Some (set_prop c k v))"
proof -
  let ?t = "k @ [32] @ v"
  have k: "k \<noteq> []" "list_all is_word k" "\<not> is_host_keyword k" and v: "clean v"
    using assms by (simp_all add: wf_entry_def wf_key_def)
  have hdk: "is_word (hd k)" using k by (cases k) auto
  then have hd: "hd ?t = hd k" "\<not> is_space (hd ?t)" using k(1) word_not_space by auto
  have "last ?t = last v" using v by (simp add: clean_def)
  then have "trim ?t = ?t" using hd(2) v by (intro trim_id) (simp_all add: clean_def)
  moreover have "option_line (k, v) = [32, 32, 32, 32] @ ?t"
    by (simp add: option_line_def js_literals)
  ultimately have t: "trim (option_line (k, v)) = ?t"
    using trim_spaces_append[of "[32, 32, 32, 32]" ?t] by (simp add: blank_space)
  have "hd k \<noteq> 35" using hdk H_not_space(3) by auto
  then have nc: "take 1 ?t \<noteq> js ''#''" using k(1) by (cases k) (simp_all add: js_literals)
  have hm: "hostMatch ?t = None"
    using hostMatch_not_keyword[of k "[32]" v] k by (simp add: blank_space)
  have om: "optMatch ?t = Some (k, v)"
    using optMatch_intro[of k "[32]" v] k v by (simp add: blank_space clean_def)
  have ne: "?t \<noteq> []" using k(1) by simp
  show ?thesis
    unfolding parse_line_def Let_def t using nc hm om ne by simp
qed

lemma parse_line_blank: "parse_line st [] = st"
  by (simp add: parse_line_def trim_def)

lemma foldl_parse_line_options:
  "list_all wf_entry xs \<Longrightarrow>
   foldl parse_line (hs, Some c) (map option_line xs) = (hs, Some (foldl assign c xs))"
proof (induction xs arbitrary: c)
  case Nil
  then show ?case by simp
next
  case (Cons x xs)
  then show ?case using parse_line_option[of "fst x" "snd x" hs c] by (simp add: assign_def)
qed

subsection \<open>Rebuilding an object from its own entries\<close>

lemma rebuild_elements:
  "wf_elements (es1 @ es2) \<Longrightarrow> js ''__proto__'' \<notin> fst ` set es2 \<Longrightarrow>
   foldl assign \<lparr>elements = es1, properties = ps\<rparr> es2 = \<lparr>elements = es1 @ es2, properties = ps\<rparr>"
proof (induction es2 arbitrary: es1)
  case Nil
  then show ?case by simp
next
  case (Cons e es2)
  obtain k v where e: "e = (k, v)" by (cases e)
  have wf: "wf_elements ((es1 @ [e]) @ es2)" using Cons.prems(1) by simp
  obtain n where n: "array_index k = Some n"
    using Cons.prems(1) e by (auto simp: wf_elements_def)
  then have ik: "index_of k = n" by (simp add: index_of_def)
  have fresh: "k \<notin> fst ` set es1" using Cons.prems(1) e by (auto simp: wf_elements_def)
  have bound: "\<forall>kv\<in>set es1. array_index (fst kv) \<noteq> None \<and> index_of (fst kv) \<le> n"
    using Cons.prems(1) e ik by (auto simp: wf_elements_def list_all_iff sorted_append)
  have "put_element n k v es1 = es1 @ [(k, v)]" using fresh bound by (rule put_element_last)
  moreover have "k \<noteq> js ''__proto__''" using Cons.prems(2) e by auto
  ultimately have "assign \<lparr>elements = es1, properties = ps\<rparr> e = \<lparr>elements = es1 @ [e], properties = ps\<rparr>"
    using n e by (simp add: assign_def set_prop_def)
  then show ?case using Cons.IH[OF wf] Cons.prems(2) by simp
qed

lemma rebuild_properties:
  "wf_options (ps1 @ ps2) \<Longrightarrow> js ''__proto__'' \<notin> fst ` set ps2 \<Longrightarrow>
   foldl assign \<lparr>elements = es, properties = (js ''name'', n) # ps1\<rparr> ps2
     = \<lparr>elements = es, properties = (js ''name'', n) # ps1 @ ps2\<rparr>"
proof (induction ps2 arbitrary: ps1)
  case Nil
  then show ?case by simp
next
  case (Cons e ps2)
  obtain k v where e: "e = (k, v)" by (cases e)
  have wf: "wf_options ((ps1 @ [e]) @ ps2)" using Cons.prems(1) by simp
  have n: "array_index k = None" "k \<noteq> js ''name''"
    using Cons.prems(1) e by (auto simp: wf_options_def)
  have fresh: "k \<notin> fst ` set ps1" using Cons.prems(1) e by (auto simp: wf_options_def)
  have "put_property k v ps1 = ps1 @ [(k, v)]" using fresh by (rule put_property_fresh)
  moreover have "k \<noteq> js ''__proto__''" using Cons.prems(2) e by auto
  ultimately have "assign \<lparr>elements = es, properties = (js ''name'', n) # ps1\<rparr> e
      = \<lparr>elements = es, properties = (js ''name'', n) # ps1 @ [e]\<rparr>"
    using n e by (simp add: assign_def set_prop_def)
  then show ?case using Cons.IH[OF wf] Cons.prems(2) by simp
qed

lemma wf_host_shape:
  assumes "wf_host h"
  obtains n ps where "properties h = (js ''name'', n) # ps" "clean n" "wf_options ps"
    "wf_elements (elements h)"
  using assms by (cases "properties h") (auto simp: wf_host_def)

lemma wf_host_lines:
  assumes "wf_host h" "properties h = (js ''name'', n) # ps"
  shows "host_lines h = (js ''Host '' @ n) # map option_line (elements h @ ps) @ [[]]"
proof -
  have el: "\<forall>kv\<in>set (elements h). fst kv \<noteq> js ''name''"
    using assms(1) name_not_index by (auto simp: wf_host_def wf_elements_def list_all_iff)
  have ps: "\<forall>kv\<in>set ps. fst kv \<noteq> js ''name''"
    using assms by (auto simp: wf_host_def wf_options_def list_all_iff)
  have "js ''name'' \<notin> fst ` set (elements h)" using el by force
  then have "map_of (elements h) (js ''name'') = None" by (simp add: map_of_eq_None_iff)
  then have "get_prop h (js ''name'') = Some n"
    using assms(2) by (simp add: get_prop_def entries_def map_add_def split: option.splits)
  moreover have "option_entries h = elements h @ ps"
    using el ps assms(2) by (simp add: option_entries_def entries_def)
  ultimately show ?thesis by (simp add: host_lines_def to_text_def)
qed

lemma foldl_parse_line_host:
  assumes "wf_host h"
  shows "foldl parse_line st (host_lines h) = (commit st, Some h)"
proof -
  from assms obtain n ps where s: "properties h = (js ''name'', n) # ps" "clean n"
    "wf_options ps" "wf_elements (elements h)" by (rule wf_host_shape)
  have ents: "list_all wf_entry (elements h @ ps)"
    using s(3,4) by (auto simp: wf_elements_def wf_options_def list_all_iff)
  have "\<forall>kv\<in>set (elements h @ ps). fst kv \<noteq> js ''__proto__''"
    using ents by (simp add: list_all_iff wf_entry_def wf_key_def)
  then have np: "js ''__proto__'' \<notin> fst ` set (elements h)" "js ''__proto__'' \<notin> fst ` set ps"
    by force+
  have "foldl assign (new_host n) (elements h @ ps)
      = foldl assign \<lparr>elements = elements h, properties = [(js ''name'', n)]\<rparr> ps"
    using rebuild_elements[of "[]" "elements h" "[(js ''name'', n)]"] s(4) np(1)
    by (simp add: new_host_def)
  also have "\<dots> = \<lparr>elements = elements h, properties = (js ''name'', n) # ps\<rparr>"
    using rebuild_properties[of "[]" ps "elements h" n] s(3) np(2) by simp
  also have "\<dots> = h" using s(1) by simp
  finally have rb: "foldl assign (new_host n) (elements h @ ps) = h" .
  show ?thesis
    unfolding wf_host_lines[OF assms s(1)]
    using parse_line_Host[OF s(2), of st] foldl_parse_line_options[OF ents, of "commit st" "new_host n"] rb
    by (simp add: parse_line_blank)
qed

lemma commit_commit: "commit (commit st, Some h) = commit st @ [h]"
  by (simp add: commit_def)

lemma foldl_parse_line_hosts:
  "list_all wf_host hs \<Longrightarrow>
   commit (foldl parse_line st (concat (map host_lines hs))) = commit st @ hs"
proof (induction hs arbitrary: st)
  case Nil
  then show ?case by simp
next
  case (Cons h hs)
  then show ?case using foldl_parse_line_host[of h st] by (simp add: commit_commit)
qed

lemma host_lines_no_newline:
  assumes "wf_host h"
  shows "list_all (\<lambda>l. newline \<notin> set l) (host_lines h)"
proof -
  from assms obtain n ps where s: "properties h = (js ''name'', n) # ps" "clean n"
    "wf_options ps" "wf_elements (elements h)" by (rule wf_host_shape)
  have ents: "list_all wf_entry (elements h @ ps)"
    using s(3,4) by (auto simp: wf_elements_def wf_options_def list_all_iff)
  have "newline \<notin> set (option_line kv)" if "wf_entry kv" for kv
    using that clean_no_newline[of "snd kv"] word_no_newline[of "fst kv"]
    by (auto simp: option_line_def js_literals wf_entry_def wf_key_def newline_def)
  then have "list_all (\<lambda>l. newline \<notin> set l) (map option_line (elements h @ ps))"
    using ents by (auto simp: list_all_iff)
  moreover have "newline \<notin> set (js ''Host '' @ n)"
    using clean_no_newline[OF s(2)] by (simp add: js_literals newline_def)
  ultimately show ?thesis unfolding wf_host_lines[OF assms s(1)] by simp
qed

lemma host_lines_head:
  assumes "wf_host h"
  shows "\<exists>l ls. host_lines h = (72 # l) # ls"
proof -
  from assms obtain n ps where s: "properties h = (js ''name'', n) # ps" by (rule wf_host_shape)
  show ?thesis using wf_host_lines[OF assms s] by (simp add: js_literals)
qed

lemma join_newline_head: "join_newline ((c # l) # ls) = c # join_newline (l # ls)"
  by (cases ls) simp_all

lemma parse_stringify_wf:
  assumes "list_all wf_host hs"
  shows "parse (stringify hs) = hs"
proof (cases hs)
  case Nil
  then show ?thesis by (simp add: stringify_def parse_def)
next
  case (Cons h hs')
  let ?ls = "concat (map host_lines hs)"
  have "wf_host h" using assms Cons by simp
  then obtain l ls where "host_lines h = (72 # l) # ls" using host_lines_head by blast
  then have hd: "stringify hs = 72 # join_newline (l # ls @ concat (map host_lines hs'))"
    using Cons by (simp add: stringify_def join_newline_head)
  then have ne: "stringify hs \<noteq> []" "trim (stringify hs) \<noteq> []"
    by (simp_all add: trim_Nil_iff H_not_space)
  have lne: "?ls \<noteq> []" using Cons by (simp add: host_lines_def)
  have "list_all (\<lambda>l. newline \<notin> set l) ?ls"
    using assms host_lines_no_newline by (auto simp: list_all_iff)
  then have "split_newline (stringify hs) = ?ls"
    using lne by (simp add: stringify_def split_join_newline)
  then show ?thesis
    using ne foldl_parse_line_hosts[OF assms, of "([], None)"]
    by (simp add: parse_def commit_def)
qed

section \<open>Properties of property assignment\<close>

lemma js_keys:
  "js ''HostName'' = [72, 111, 115, 116, 78, 97, 109, 101]"
  "js ''User'' = [85, 115, 101, 114]"
  "js ''Port'' = [80, 111, 114, 116]"
  "js ''IdentityFile'' = [73, 100, 101, 110, 116, 105, 116, 121, 70, 105, 108, 101]"
  by (simp_all add: js_def)

lemma wf_host_key_split: "wf_host h \<Longrightarrow> key_split h"
  by (cases "properties h")
     (auto simp: wf_host_def key_split_def wf_elements_def wf_options_def list_all_iff
        name_not_index)

lemma key_split_new_host: "key_split (new_host n)"
  by (simp add: key_split_def new_host_def name_not_index)

lemma set_prop_key_split:
  assumes "key_split h"
  shows "key_split (set_prop h k v)"
proof (cases "array_index k")
  case None
  have "\<forall>kv\<in>set (put_property k v (properties h)). array_index (fst kv) = None"
    using assms None set_put_property[of k v "properties h"]
    by (auto simp: key_split_def list_all_iff)
  then show ?thesis using assms None by (simp add: key_split_def set_prop_def list_all_iff)
next
  case (Some n)
  have "\<forall>kv\<in>set (put_element n k v (elements h)). array_index (fst kv) \<noteq> None"
    using assms Some set_put_element[of n k v "elements h"]
    by (auto simp: key_split_def list_all_iff)
  then show ?thesis using assms Some by (simp add: key_split_def set_prop_def list_all_iff)
qed

lemma map_of_put_property:
  "map_of (put_property k v ps) k' = (if k' = k then Some v else map_of ps k')"
  by (induction ps) auto

lemma map_of_put_element:
  "map_of (put_element n k v es) k' = (if k' = k then Some v else map_of es k')"
  by (induction es) (auto split: option.splits)

lemma key_split_elements_None:
  "key_split h \<Longrightarrow> array_index k = None \<Longrightarrow> map_of (elements h) k = None"
  by (force simp: key_split_def list_all_iff map_of_eq_None_iff)

lemma get_set_prop:
  assumes "key_split h" "k \<noteq> js ''__proto__''"
  shows "get_prop (set_prop h k v) k' = (if k' = k then Some v else get_prop h k')"
proof (cases "array_index k")
  case None
  then show ?thesis
    using assms key_split_elements_None[OF assms(1) None]
    by (auto simp: get_prop_def set_prop_def entries_def map_add_def map_of_put_property
        split: option.splits)
next
  case (Some n)
  then show ?thesis
    using assms
    by (auto simp: get_prop_def set_prop_def entries_def map_add_def map_of_put_element
        split: option.splits)
qed

lemma keys_set_prop_named:
  assumes "key_split h" "array_index k = None" "k \<noteq> js ''__proto__''"
  shows "keys (set_prop h k v) = (if k \<in> set (keys h) then keys h else keys h @ [k])"
proof -
  have "k \<notin> fst ` set (elements h)"
    using assms(1,2) by (force simp: key_split_def list_all_iff)
  then have "k \<in> set (keys h) \<longleftrightarrow> k \<in> fst ` set (properties h)"
    by (auto simp: keys_def entries_def)
  then show ?thesis
    using assms by (simp add: set_prop_def keys_def entries_def keys_put_property)
qed

lemma keys_put_element_present:
  "sorted (map (\<lambda>kv. index_of (fst kv)) es) \<Longrightarrow> array_index k = Some n \<Longrightarrow> k \<in> fst ` set es
    \<Longrightarrow> map fst (put_element n k v es) = map fst es"
proof (induction es)
  case Nil
  then show ?case by simp
next
  case (Cons e es)
  have ik: "index_of k = n" using Cons.prems(2) by (simp add: index_of_def)
  show ?case
  proof (cases "fst e = k")
    case True
    then show ?thesis by (cases e) auto
  next
    case False
    then have in_es: "k \<in> fst ` set es" using Cons.prems(3) by auto
    then have "index_of (fst e) \<le> n" using Cons.prems(1) ik by auto
    then show ?thesis
      using False in_es Cons by (cases e) (auto simp: index_of_def split: option.splits)
  qed
qed

lemma keys_set_prop_present:
  assumes "wf_host h" "k \<in> set (keys h)"
  shows "keys (set_prop h k v) = keys h"
proof (cases "array_index k")
  case None
  have "k \<noteq> js ''__proto__''" using assms wf_key_not_keys by blast
  then show ?thesis
    using keys_set_prop_named[OF wf_host_key_split[OF assms(1)] None] assms(2) by simp
next
  case (Some n)
  have ks: "key_split h" using assms(1) by (rule wf_host_key_split)
  have "k \<notin> fst ` set (properties h)"
    using ks Some by (force simp: key_split_def list_all_iff)
  then have "k \<in> fst ` set (elements h)" using assms(2) by (auto simp: keys_def entries_def)
  moreover have "sorted (map (\<lambda>kv. index_of (fst kv)) (elements h))"
    using assms(1) by (simp add: wf_host_def wf_elements_def)
  ultimately have "map fst (put_element n k v (elements h)) = map fst (elements h)"
    using Some keys_put_element_present by blast
  moreover have "k \<noteq> js ''__proto__''" using assms wf_key_not_keys by blast
  ultimately show ?thesis using Some by (simp add: set_prop_def keys_def entries_def)
qed

lemma wf_host_keys_not_keyword: "wf_host h \<Longrightarrow> k \<in> set (keys h) \<Longrightarrow> \<not> is_host_keyword k"
  by (cases "properties h")
     (auto simp: wf_host_def wf_elements_def wf_options_def wf_entry_def wf_key_def keys_def
       entries_def list_all_iff js_literals is_host_keyword_def)

section \<open>Properties of the conditional assignments\<close>

lemma recognized_keys:
  "k \<in> set recognized \<Longrightarrow> array_index k = None \<and> k \<noteq> js ''__proto__'' \<and> k \<noteq> js ''name''
     \<and> k \<noteq> [] \<and> list_all is_word k \<and> \<not> is_host_keyword k"
  by (auto simp: recognized_def js_keys js_literals array_index_def is_digit_def is_word_def
      is_host_keyword_def)

lemma distinct_recognized: "distinct recognized"
  by (simp add: recognized_def js_keys)

lemma apply_options_foldl:
  "apply_options h opts = foldl (\<lambda>h k. set_field h k (field_value opts k)) h recognized"
  by (simp add: apply_options_def recognized_def field_value_def js_keys)

lemma supplied_unrecognized: "k \<notin> set recognized \<Longrightarrow> supplied opts k = None"
  by (simp add: supplied_def field_value_def recognized_def truthy_def)

lemma set_field_supplied:
  "set_field h k (field_value opts k)
     = (case supplied opts k of None \<Rightarrow> h | Some v \<Rightarrow> set_prop h k v)"
  by (auto simp: set_field_def supplied_def truthy_def split: option.splits)

lemma foldl_set_field_key_split:
  "key_split h \<Longrightarrow> key_split (foldl (\<lambda>h k. set_field h k (field_value opts k)) h ks)"
  by (induction ks arbitrary: h)
     (auto simp: set_field_supplied set_prop_key_split split: option.splits)

lemma foldl_set_field_get:
  "key_split h \<Longrightarrow> set ks \<subseteq> set recognized \<Longrightarrow>
   get_prop (foldl (\<lambda>h k. set_field h k (field_value opts k)) h ks) k
     = (if k \<in> set ks then (case supplied opts k of None \<Rightarrow> get_prop h k | Some v \<Rightarrow> Some v)
        else get_prop h k)"
proof (induction ks arbitrary: h)
  case Nil
  then show ?case by simp
next
  case (Cons a ks)
  let ?h = "set_field h a (field_value opts a)"
  have a: "a \<noteq> js ''__proto__''" using Cons.prems(2) recognized_keys by auto
  have ks: "key_split ?h"
    using Cons.prems(1) by (auto simp: set_field_supplied set_prop_key_split split: option.splits)
  have step: "get_prop ?h k
      = (if k = a then (case supplied opts k of None \<Rightarrow> get_prop h k | Some v \<Rightarrow> Some v)
         else get_prop h k)"
    using get_set_prop[OF Cons.prems(1) a]
    by (auto simp: set_field_supplied split: option.splits)
  show ?case
    using Cons.IH[OF ks] Cons.prems(2) step by (auto split: option.splits)
qed

lemma foldl_set_field_keys:
  "key_split h \<Longrightarrow> set ks \<subseteq> set recognized \<Longrightarrow> distinct ks \<Longrightarrow>
   keys (foldl (\<lambda>h k. set_field h k (field_value opts k)) h ks)
     = keys h @ filter (\<lambda>k. supplied opts k \<noteq> None \<and> k \<notin> set (keys h)) ks"
proof (induction ks arbitrary: h)
  case Nil
  then show ?case by simp
next
  case (Cons a ks)
  let ?h = "set_field h a (field_value opts a)"
  have a: "array_index a = None" "a \<noteq> js ''__proto__''"
    using Cons.prems(2) recognized_keys by auto
  have ks: "key_split ?h"
    using Cons.prems(1) by (auto simp: set_field_supplied set_prop_key_split split: option.splits)
  have step: "keys ?h = keys h @ (if supplied opts a \<noteq> None \<and> a \<notin> set (keys h) then [a] else [])"
    using keys_set_prop_named[OF Cons.prems(1) a]
    by (auto simp: set_field_supplied split: option.splits)
  have "filter (\<lambda>k. supplied opts k \<noteq> None \<and> k \<notin> set (keys ?h)) ks
      = filter (\<lambda>k. supplied opts k \<noteq> None \<and> k \<notin> set (keys h)) ks"
    using Cons.prems(3) step by (intro filter_cong) auto
  then show ?case
    using Cons.IH[OF ks] Cons.prems(2,3) step by auto
qed

lemma get_apply_options:
  "key_split h \<Longrightarrow>
   get_prop (apply_options h opts) k
     = (case supplied opts k of None \<Rightarrow> get_prop h k | Some v \<Rightarrow> Some v)"
  using foldl_set_field_get[of h recognized opts k] supplied_unrecognized[of k opts]
  by (auto simp: apply_options_foldl split: option.splits)

lemma keys_apply_options:
  "key_split h \<Longrightarrow>
   keys (apply_options h opts)
     = keys h @ filter (\<lambda>k. supplied opts k \<noteq> None \<and> k \<notin> set (keys h)) recognized"
  by (simp add: apply_options_foldl foldl_set_field_keys distinct_recognized)

lemma foldl_set_field_wf:
  "wf_host h \<Longrightarrow> set ks \<subseteq> set recognized \<Longrightarrow>
   list_all (\<lambda>k. case supplied opts k of None \<Rightarrow> True | Some v \<Rightarrow> clean v) ks \<Longrightarrow>
   wf_host (foldl (\<lambda>h k. set_field h k (field_value opts k)) h ks)"
proof (induction ks arbitrary: h)
  case Nil
  then show ?case by simp
next
  case (Cons a ks)
  have "wf_host (set_field h a (field_value opts a))"
    using Cons.prems recognized_keys[of a] wf_host_set_prop[of h a]
    by (auto simp: set_field_supplied split: option.splits)
  then show ?case using Cons by simp
qed

lemma wf_apply_options:
  assumes "wf_host h" "clean_options opts"
  shows "wf_host (apply_options h opts)"
proof -
  have "list_all (\<lambda>k. case supplied opts k of None \<Rightarrow> True | Some v \<Rightarrow> clean v) recognized"
    using assms(2) by (auto simp: clean_options_def line_text_def list_all_iff split: option.splits)
  then show ?thesis using assms(1) by (simp add: apply_options_foldl foldl_set_field_wf)
qed

section \<open>Properties of the encoding\<close>

lemma replacement_not_surrogate: "\<not> is_high_surrogate 65533" "\<not> is_low_surrogate 65533"
  by (simp_all add: is_high_surrogate_def is_low_surrogate_def)

lemma surrogate_not_replacement:
  "is_high_surrogate c \<or> is_low_surrogate c \<Longrightarrow> c \<noteq> 65533"
  using replacement_not_surrogate by auto

lemma high_not_low: "is_high_surrogate c \<Longrightarrow> \<not> is_low_surrogate c"
  by (simp add: is_high_surrogate_def is_low_surrogate_def)

lemma utf8_text_plain:
  "\<not> is_high_surrogate c \<Longrightarrow> \<not> is_low_surrogate c \<Longrightarrow> utf8_text (c # s) = c # utf8_text s"
  by (cases s) simp_all

lemma utf8_text_idem: "utf8_text (utf8_text s) = utf8_text s"
  by (induction s rule: utf8_text.induct)
     (simp_all add: utf8_text_plain replacement_not_surrogate)

lemma well_formed_utf8_text: "well_formed (utf8_text s)"
  by (simp add: well_formed_def utf8_text_idem)

lemma utf8_text_append: "well_formed a \<Longrightarrow> utf8_text (a @ b) = a @ utf8_text b"
proof (induction a rule: utf8_text.induct)
  case 1
  then show ?case by simp
next
  case (2 c)
  then show ?case
    using surrogate_not_replacement[of c]
    by (auto simp: well_formed_def utf8_text_plain split: if_splits)
next
  case (3 c d cs)
  then show ?case
    using surrogate_not_replacement[of c]
    by (auto simp: well_formed_def split: if_splits)
qed

lemma well_formed_append: "well_formed a \<Longrightarrow> well_formed (a @ b) \<longleftrightarrow> well_formed b"
  by (simp add: well_formed_def utf8_text_append)

lemma well_formed_prefix:
  "well_formed (a @ b) \<Longrightarrow> b = [] \<or> \<not> is_low_surrogate (hd b) \<Longrightarrow> well_formed a"
proof (induction a rule: utf8_text.induct)
  case 1
  then show ?case by (simp add: well_formed_def)
next
  case (2 c)
  then show ?case
    using surrogate_not_replacement[of c]
    by (cases b) (auto simp: well_formed_def split: if_splits)
next
  case (3 c d cs)
  then show ?case
    using surrogate_not_replacement[of c]
    by (auto simp: well_formed_def split: if_splits)
qed

lemma well_formed_plain:
  "list_all (\<lambda>c. \<not> is_high_surrogate c \<and> \<not> is_low_surrogate c) s \<Longrightarrow> well_formed s"
  by (induction s) (simp_all add: well_formed_def utf8_text_plain)

lemma space_not_surrogate: "is_space c \<Longrightarrow> \<not> is_high_surrogate c \<and> \<not> is_low_surrogate c"
  by (auto simp: is_space_def is_high_surrogate_def is_low_surrogate_def Let_def)

lemma word_not_surrogate: "is_word c \<Longrightarrow> \<not> is_high_surrogate c \<and> \<not> is_low_surrogate c"
  by (auto simp: is_word_def is_high_surrogate_def is_low_surrogate_def Let_def)

lemma well_formed_spaces: "list_all is_space w \<Longrightarrow> well_formed w"
  by (rule well_formed_plain) (auto simp: list_all_iff space_not_surrogate)

lemma well_formed_word: "list_all is_word k \<Longrightarrow> well_formed k"
  by (rule well_formed_plain) (auto simp: list_all_iff word_not_surrogate)

lemma well_formed_trim: "well_formed s \<Longrightarrow> well_formed (trim s)"
proof -
  assume wf: "well_formed s"
  let ?d = "dropWhile is_space s"
  have "s = takeWhile is_space s @ ?d" by simp
  moreover have "well_formed (takeWhile is_space s)"
    by (rule well_formed_spaces) (auto simp: list_all_iff dest: set_takeWhileD)
  ultimately have d: "well_formed ?d" using wf well_formed_append by metis
  let ?w = "rev (takeWhile is_space (rev ?d))"
  have split: "?d = trim s @ ?w"
    by (simp add: trim_def flip: rev_append)
  have "?w = [] \<or> \<not> is_low_surrogate (hd ?w)"
  proof (cases "?w = []")
    case False
    then have "hd ?w \<in> set (takeWhile is_space (rev ?d))" by (metis hd_in_set set_rev)
    then have "is_space (hd ?w)" by (meson set_takeWhileD)
    then show ?thesis using space_not_surrogate by blast
  qed simp
  then show ?thesis using d split well_formed_prefix by metis
qed

lemma join_split_newline: "join_newline (split_newline s) = s"
proof (induction s)
  case Nil
  then show ?case by simp
next
  case (Cons c s)
  obtain l ls where l: "split_newline s = l # ls"
    by (cases "split_newline s") (auto split: list.splits if_splits elim: split_newline.elims)
  then show ?case using Cons by (simp add: join_newline_head)
qed

lemma well_formed_join:
  "well_formed (join_newline ls) \<Longrightarrow> list_all well_formed ls"
proof (induction ls rule: join_newline.induct)
  case 1
  then show ?case by simp
next
  case (2 l)
  then show ?case by simp
next
  case (3 l l' ls)
  have nl: "\<not> is_low_surrogate (hd (newline # join_newline (l' # ls)))"
    by (simp add: newline_def is_low_surrogate_def)
  have w: "well_formed (l @ newline # join_newline (l' # ls))" using 3(2) by simp
  then have l: "well_formed l" using well_formed_prefix nl by blast
  then have "well_formed ([newline] @ join_newline (l' # ls))"
    using w well_formed_append by simp
  moreover have "well_formed [newline]"
    by (simp add: well_formed_def newline_def is_high_surrogate_def is_low_surrogate_def)
  ultimately have "well_formed (join_newline (l' # ls))" using well_formed_append by blast
  then show ?case using 3(1) l by simp
qed

lemma well_formed_lines: "well_formed s \<Longrightarrow> list_all well_formed (split_newline s)"
  using well_formed_join[of "split_newline s"] by (simp add: join_split_newline)

lemma hostMatch_SomeD:
  assumes "t \<noteq> []" "\<not> is_space (last t)" "hostMatch t = Some n"
  shows "\<exists>k w. t = k @ w @ n \<and> k \<noteq> [] \<and> list_all is_word k \<and> w \<noteq> [] \<and> list_all is_space w
    \<and> n \<noteq> [] \<and> \<not> list_ex is_line_terminator n"
proof -
  have kw: "is_host_keyword (take 4 t)" and m: "match_rest (drop 4 t) = Some n"
    using assms(3) by (auto simp: hostMatch_def split: if_splits)
  have "drop 4 t \<noteq> [] \<longrightarrow> \<not> is_space (last (drop 4 t))" using assms(2) by simp
  from match_rest_SomeD[OF this m] obtain w where
    w: "clean n" "w \<noteq> []" "list_all is_space w" "drop 4 t = w @ n" by blast
  have 1: "t = take 4 t @ w @ n" using w(4) by (metis append_take_drop_id)
  have 2: "take 4 t \<noteq> []" "list_all is_word (take 4 t)"
    using host_keyword_word[OF kw] by auto
  have 3: "n \<noteq> []" "\<not> list_ex is_line_terminator n" using w(1) by (simp_all add: clean_def)
  show ?thesis
    by (rule exI[of _ "take 4 t"], rule exI[of _ w]) (use 1 2 3 w(2,3) in blast)
qed

subsection \<open>What is read from the file has no lone surrogate\<close>

lemma host_text_set_prop:
  assumes "host_text h" "well_formed v"
  shows "host_text (set_prop h k v)"
proof (cases "array_index k")
  case None
  have "\<forall>kv\<in>set (put_property k v (properties h)). well_formed (snd kv)"
    using assms set_put_property[of k v "properties h"]
    by (auto simp: host_text_def entries_def list_all_iff)
  then show ?thesis
    using assms None by (auto simp: host_text_def set_prop_def entries_def list_all_iff)
next
  case (Some n)
  have "\<forall>kv\<in>set (put_element n k v (elements h)). well_formed (snd kv)"
    using assms set_put_element[of n k v "elements h"]
    by (auto simp: host_text_def entries_def list_all_iff)
  then show ?thesis
    using assms Some by (auto simp: host_text_def set_prop_def entries_def list_all_iff)
qed

lemma host_text_new_host: "well_formed n \<Longrightarrow> host_text (new_host n)"
  by (simp add: host_text_def new_host_def entries_def)

lemma hostMatch_well_formed:
  assumes "t \<noteq> []" "\<not> is_space (last t)" "well_formed t" "hostMatch t = Some n"
  shows "well_formed n"
proof -
  from hostMatch_SomeD[OF assms(1,2,4)] obtain k w where
    "t = k @ w @ n" "list_all is_word k" "list_all is_space w" by blast
  then show ?thesis
    using assms(3) well_formed_append well_formed_word well_formed_spaces by metis
qed

lemma optMatch_well_formed:
  assumes "t \<noteq> []" "\<not> is_space (last t)" "well_formed t" "optMatch t = Some (k, v)"
  shows "well_formed v"
proof -
  from optMatch_SomeD[OF assms(1,2,4)] obtain w where
    "t = k @ w @ v" "list_all is_word k" "list_all is_space w" by blast
  then show ?thesis
    using assms(3) well_formed_append well_formed_word well_formed_spaces by metis
qed

lemma parse_line_text:
  assumes "text_state st" "well_formed line"
  shows "text_state (parse_line st line)"
proof (cases "trim line = [] \<or> take 1 (trim line) = js ''#''")
  case True
  then show ?thesis using assms by (cases st) (auto simp: parse_line_def)
next
  case False
  then have t: "trim line \<noteq> []" "\<not> is_space (last (trim line))"
    using trim_ends(2)[of line] by auto
  have w: "well_formed (trim line)" using assms(2) by (rule well_formed_trim)
  show ?thesis
  proof (cases "hostMatch (trim line)")
    case (Some n)
    then have "host_text (new_host n)"
      using hostMatch_well_formed[OF t w] host_text_new_host by blast
    then show ?thesis
      using assms False Some
      by (cases st) (auto simp: parse_line_def text_state_def split: option.splits)
  next
    case None
    show ?thesis
    proof (cases "snd st")
      case cur: None
      then show ?thesis using assms False None by (cases st) (auto simp: parse_line_def)
    next
      case cur: (Some c)
      show ?thesis
      proof (cases "optMatch (trim line)")
        case om: None
        then show ?thesis using assms False None cur by (cases st) (auto simp: parse_line_def)
      next
        case om: (Some kv)
        obtain k v where kv: "kv = (k, v)" by (cases kv)
        have "well_formed v" using optMatch_well_formed[OF t w] om kv by blast
        moreover have "host_text c" using assms cur by (simp add: text_state_def)
        ultimately have "host_text (set_prop c k v)" using host_text_set_prop by blast
        then show ?thesis
          using assms False None cur om kv by (cases st) (auto simp: parse_line_def text_state_def)
      qed
    qed
  qed
qed

lemma foldl_parse_line_text:
  "text_state st \<Longrightarrow> list_all well_formed ls \<Longrightarrow> text_state (foldl parse_line st ls)"
  by (induction ls arbitrary: st) (simp_all add: parse_line_text)

lemma parse_text: "well_formed content \<Longrightarrow> list_all host_text (parse content)"
proof -
  assume "well_formed content"
  then have "list_all well_formed (split_newline content)" by (rule well_formed_lines)
  moreover have "text_state ([], None)" by (simp add: text_state_def)
  ultimately have "text_state (foldl parse_line ([], None) (split_newline content))"
    using foldl_parse_line_text by blast
  then show ?thesis
    by (cases "foldl parse_line ([], None) (split_newline content)")
       (auto simp: parse_def commit_def text_state_def split: option.splits)
qed

lemma stored_host_iff: "stored_host h \<longleftrightarrow> wf_host h \<and> host_text h"
  by (simp add: stored_host_def)

lemma parse_stored: "well_formed content \<Longrightarrow> list_all stored_host (parse content)"
  using parse_wf[of content] parse_text[of content]
  by (auto simp: list_all_iff stored_host_iff)

subsection \<open>What is written has no lone surrogate\<close>

lemma well_formed_concat: "well_formed a \<Longrightarrow> well_formed b \<Longrightarrow> well_formed (a @ b)"
  by (simp add: well_formed_append)

lemma well_formed_join_newline: "list_all well_formed ls \<Longrightarrow> well_formed (join_newline ls)"
proof (induction ls rule: join_newline.induct)
  case (3 l l' ls)
  have "well_formed [newline]"
    by (simp add: well_formed_def newline_def is_high_surrogate_def is_low_surrogate_def)
  then have "well_formed ([newline] @ join_newline (l' # ls))"
    using 3 by (intro well_formed_concat) simp_all
  then show ?case using 3(2) by (simp add: well_formed_append)
qed (simp_all add: well_formed_def)

lemma well_formed_literals:
  "well_formed (js ''Host '')" "well_formed (js ''    '')" "well_formed (js '' '')" "well_formed []"
  by (simp_all add: well_formed_def js_literals is_high_surrogate_def is_low_surrogate_def)

lemma well_formed_host_lines:
  assumes "stored_host h"
  shows "list_all well_formed (host_lines h)"
proof -
  have wf: "wf_host h" and tx: "host_text h" using assms by (simp_all add: stored_host_iff)
  from wf obtain n ps where s: "properties h = (js ''name'', n) # ps" "clean n"
    "wf_options ps" "wf_elements (elements h)" by (rule wf_host_shape)
  have n: "well_formed n" using tx s(1) by (simp add: host_text_def entries_def)
  have ents: "list_all wf_entry (elements h @ ps)"
    using s(3,4) by (auto simp: wf_elements_def wf_options_def list_all_iff)
  have vals: "\<forall>kv\<in>set (elements h @ ps). well_formed (snd kv)"
    using tx s(1) by (auto simp: host_text_def entries_def list_all_iff)
  have "well_formed (option_line kv)" if "kv \<in> set (elements h @ ps)" for kv
  proof -
    have "list_all is_word (fst kv)"
      using that ents by (auto simp: list_all_iff wf_entry_def wf_key_def)
    then have "well_formed (fst kv)" by (rule well_formed_word)
    moreover have "well_formed (snd kv)" using that vals by blast
    ultimately show ?thesis
      unfolding option_line_def by (intro well_formed_concat well_formed_literals)
  qed
  then have "list_all well_formed (map option_line (elements h @ ps))"
    by (auto simp: list_all_iff)
  moreover have "well_formed (js ''Host '' @ n)"
    using n by (intro well_formed_concat well_formed_literals)
  ultimately show ?thesis
    unfolding wf_host_lines[OF wf s(1)] by (simp add: well_formed_literals)
qed

lemma well_formed_stringify:
  assumes "list_all stored_host hs"
  shows "well_formed (stringify hs)"
proof -
  have "list_all well_formed (host_lines h)" if "h \<in> set hs" for h
    using that assms by (intro well_formed_host_lines) (simp add: list_all_iff)
  then have "list_all well_formed (concat (map host_lines hs))"
    by (auto simp: list_all_iff)
  then show ?thesis unfolding stringify_def by (rule well_formed_join_newline)
qed

subsection \<open>Reading what was written\<close>

lemma read_stored: "list_all stored_host (read f)"
  by (cases f) (simp_all add: read_def parse_stored well_formed_utf8_text)

lemma read_write_file: "list_all stored_host hs \<Longrightarrow> read (write_file hs) = hs"
proof -
  assume s: "list_all stored_host hs"
  then have "utf8_text (stringify hs) = stringify hs"
    using well_formed_stringify by (simp add: well_formed_def)
  moreover have "list_all wf_host hs" using s by (auto simp: list_all_iff stored_host_iff)
  ultimately show ?thesis by (simp add: read_def write_file_def utf8_text_idem parse_stringify_wf)
qed

lemma stored_new_host: "line_text n \<Longrightarrow> stored_host (new_host n)"
  by (simp add: stored_host_iff line_text_def wf_host_new host_text_new_host)

lemma stored_set_prop:
  "stored_host h \<Longrightarrow> k \<noteq> [] \<Longrightarrow> list_all is_word k \<Longrightarrow> \<not> is_host_keyword k \<Longrightarrow> line_text v
    \<Longrightarrow> stored_host (set_prop h k v)"
  by (simp add: stored_host_iff line_text_def wf_host_set_prop host_text_set_prop)

lemma stored_set_field:
  "stored_host h \<Longrightarrow> k \<in> set recognized \<Longrightarrow>
   (case supplied opts k of None \<Rightarrow> True | Some v \<Rightarrow> line_text v) \<Longrightarrow>
   stored_host (set_field h k (field_value opts k))"
  using recognized_keys[of k] stored_set_prop[of h k]
  by (auto simp: set_field_supplied split: option.splits)

lemma foldl_set_field_stored:
  "stored_host h \<Longrightarrow> set ks \<subseteq> set recognized \<Longrightarrow>
   list_all (\<lambda>k. case supplied opts k of None \<Rightarrow> True | Some v \<Rightarrow> line_text v) ks \<Longrightarrow>
   stored_host (foldl (\<lambda>h k. set_field h k (field_value opts k)) h ks)"
proof (induction ks arbitrary: h)
  case Nil
  then show ?case by simp
next
  case (Cons a ks)
  have "stored_host (set_field h a (field_value opts a))"
    using Cons.prems by (intro stored_set_field) simp_all
  then show ?case using Cons by simp
qed

lemma stored_apply_options:
  "stored_host h \<Longrightarrow> clean_options opts \<Longrightarrow> stored_host (apply_options h opts)"
  by (simp add: apply_options_foldl clean_options_def foldl_set_field_stored)

section \<open>Properties of the operations\<close>

lemma read_wf: "list_all wf_host (read f)"
  by (cases f) (simp_all add: read_def parse_wf)



lemma find_absent: "\<not> list_ex p hs \<Longrightarrow> find p hs = None"
  by (induction hs) auto

lemma findIndex_absent: "\<not> list_ex p hs \<Longrightarrow> findIndex p hs = None"
  by (induction hs) auto

lemma find_first: "\<not> list_ex p xs \<Longrightarrow> p h \<Longrightarrow> find p (xs @ h # ys) = Some h"
  by (induction xs) auto

lemma findIndex_first: "\<not> list_ex p xs \<Longrightarrow> p h \<Longrightarrow> findIndex p (xs @ h # ys) = Some (length xs)"
  by (induction xs) auto

lemma list_ex_first: "list_ex p hs \<Longrightarrow> \<exists>xs h ys. hs = xs @ h # ys \<and> p h \<and> \<not> list_ex p xs"
proof (induction hs)
  case Nil
  then show ?case by simp
next
  case (Cons a hs)
  show ?case
  proof (cases "p a")
    case True
    then have "a # hs = [] @ a # hs \<and> p a \<and> \<not> list_ex p []" by simp
    then show ?thesis by blast
  next
    case False
    then obtain xs h ys where "hs = xs @ h # ys" "p h" "\<not> list_ex p xs" using Cons by auto
    then have "a # hs = (a # xs) @ h # ys \<and> p h \<and> \<not> list_ex p (a # xs)" using False by simp
    then show ?thesis by blast
  qed
qed

lemma first_named_exists: "list_ex (named name) hs \<Longrightarrow> \<exists>xs h ys. first_named name hs xs h ys"
  using list_ex_first[of "named name" hs] by (simp add: first_named_def)

lemma first_named_present: "first_named name hs xs h ys \<Longrightarrow> list_ex (named name) hs"
  by (auto simp: first_named_def)

lemma first_named_find:
  "first_named name hs xs h ys \<Longrightarrow> find (named name) hs = Some h"
  by (simp add: first_named_def find_first)

lemma first_named_findIndex:
  "first_named name hs xs h ys \<Longrightarrow> findIndex (named name) hs = Some (length xs)"
  by (simp add: first_named_def findIndex_first)


lemma addHost_fresh:
  "\<not> list_ex (named name) (read f) \<Longrightarrow>
   addHost name opts f
     = (Inr (apply_options (new_host name) opts),
        write_file (read f @ [apply_options (new_host name) opts]))"
  by (simp add: addHost_def find_absent Let_def)

lemma editHost_missing:
  "\<not> list_ex (named name) (read f) \<Longrightarrow> editHost name opts f = (Inl (HostNotFound name), f)"
  by (simp add: editHost_def findIndex_absent)

lemma editHost_found:
  "first_named name (read f) xs h ys \<Longrightarrow>
   editHost name opts f = (Inr (apply_options h opts), write_file (xs @ apply_options h opts # ys))"
  using first_named_findIndex[of name "read f" xs h ys]
  by (simp add: editHost_def Let_def) (simp add: first_named_def)

lemma removeHost_missing:
  "\<not> list_ex (named name) (read f) \<Longrightarrow> removeHost name f = (Inl (HostNotFound name), f)"
  by (simp add: removeHost_def findIndex_absent)

lemma removeHost_found:
  "first_named name (read f) xs h ys \<Longrightarrow> removeHost name f = (Inr (), write_file (xs @ ys))"
  using first_named_findIndex[of name "read f" xs h ys]
  by (simp add: removeHost_def Let_def) (simp add: first_named_def)

lemma copyHost_missing:
  "\<not> list_ex (named from) (read f) \<Longrightarrow> copyHost from to f = (Inl (HostNotFound from), f)"
  by (simp add: copyHost_def find_absent)

lemma copyHost_exists:
  "list_ex (named from) (read f) \<Longrightarrow> list_ex (named to) (read f) \<Longrightarrow>
   copyHost from to f = (Inl (HostExists to), f)"
  using first_named_exists[of "from" "read f"] first_named_find[of "from" "read f"]
    first_named_exists[of to "read f"] first_named_find[of to "read f"]
  by (auto simp: copyHost_def)

lemma copyHost_fresh:
  "first_named from (read f) xs s ys \<Longrightarrow> \<not> list_ex (named to) (read f) \<Longrightarrow>
   copyHost from to f
     = (Inr (set_prop s (js ''name'') to), write_file (read f @ [set_prop s (js ''name'') to]))"
  using first_named_find[of "from" "read f" xs s ys]
  by (simp add: copyHost_def find_absent Let_def)

lemma named_wf: "wf_host h \<Longrightarrow> named name h \<longleftrightarrow> (\<exists>ps. properties h = (js ''name'', name) # ps)"
proof -
  assume wf: "wf_host h"
  then obtain n ps where s: "properties h = (js ''name'', n) # ps" by (rule wf_host_shape)
  have "map_of (elements h) (js ''name'') = None"
    using key_split_elements_None[OF wf_host_key_split[OF wf] name_not_index] .
  then have "get_prop h (js ''name'') = Some n"
    using s by (simp add: get_prop_def entries_def map_add_def)
  then show ?thesis using s by (auto simp: named_def)
qed

lemma wf_set_name: "wf_host s \<Longrightarrow> clean to \<Longrightarrow> wf_host (set_prop s (js ''name'') to)"
  by (rule wf_host_set_prop)
     (simp_all add: js_literals is_word_def is_host_keyword_def)

lemma named_set_name: "key_split s \<Longrightarrow> named to (set_prop s (js ''name'') to)"
  using get_set_prop[of s "js ''name''" to "js ''name''"]
  by (simp add: named_def js_literals)

lemma named_apply_options:
  "key_split h \<Longrightarrow> named name (apply_options h opts) \<longleftrightarrow> named name h"
  using supplied_unrecognized[of "js ''name''" opts]
  by (simp add: named_def get_apply_options recognized_def js_keys js_literals)

lemma option_entries_set_name:
  assumes "wf_host s"
  shows "option_entries (set_prop s (js ''name'') to) = option_entries s"
proof -
  from assms obtain n ps where s: "properties s = (js ''name'', n) # ps" by (rule wf_host_shape)
  have "set_prop s (js ''name'') to = s\<lparr>properties := (js ''name'', to) # ps\<rparr>"
    using s name_not_index by (simp add: set_prop_def js_literals)
  then show ?thesis using s by (simp add: option_entries_def entries_def)
qed

lemma stored_set_name: "stored_host s \<Longrightarrow> line_text to \<Longrightarrow> stored_host (set_prop s (js ''name'') to)"
  by (rule stored_set_prop)
     (simp_all add: js_literals is_word_def is_host_keyword_def)

lemma wf_middle:
  "list_all wf_host (xs @ h # ys) \<Longrightarrow> wf_host h' \<Longrightarrow> list_all wf_host (xs @ h' # ys)"
  by simp

section \<open>Properties of importConfig\<close>

lemma json_name_text_host: "json_name_text (to_json h) = Some (to_text (get_prop h (js ''name'')))"
proof -
  have "map_of (map (\<lambda>kv. (fst kv, JString (snd kv))) xs) k = map_option JString (map_of xs k)"
    for xs :: "(jsstring \<times> jsstring) list" and k
    by (induction xs) auto
  then show ?thesis
    by (simp add: json_name_text_def to_json_def to_text_def get_prop_def split: option.splits)
qed

lemma those_option_lines:
  "those (map (\<lambda>kv. json_option_line (fst kv, JString (snd kv))) ys)
     = Some (map option_line ys)"
  by (induction ys) (simp_all add: json_option_line_def option_line_def)

lemma json_host_lines_host: "json_host_lines (to_json h) = Some (host_lines h)"
proof -
  have "filter (\<lambda>kv. fst kv \<noteq> js ''name'') (json_entries (to_json h))
      = map (\<lambda>kv. (fst kv, JString (snd kv))) (option_entries h)"
    by (simp add: json_entries_def to_json_def option_entries_def filter_map comp_def)
  then show ?thesis
    by (simp add: json_host_lines_def json_name_text_host those_option_lines host_lines_def
        comp_def)
qed

lemma those_host_lines:
  "those (map (\<lambda>h. json_host_lines (to_json h)) hs) = Some (map host_lines hs)"
  by (induction hs) (simp_all add: json_host_lines_host)

lemma stringify_json_hosts: "stringify_json (map to_json hs) = Some (stringify hs)"
  by (simp add: stringify_json_def stringify_def those_host_lines comp_def)

section \<open>One more line of text\<close>

lemma split_newline_nonempty: "split_newline s \<noteq> []"
  by (induction s) (auto split: list.splits)

lemma split_newline_snoc:
  "newline \<notin> set line \<Longrightarrow> split_newline (pre @ newline # line) = split_newline pre @ [line]"
proof (induction pre)
  case Nil
  then show ?case by (simp add: split_newline_no_newline)
next
  case (Cons c pre)
  then show ?case
    using split_newline_nonempty[of pre] by (cases "split_newline pre") auto
qed

text \<open>Before the first \<open>Host\<close> line nothing has been collected.\<close>

lemma parse_line_closed:
  "(snd st = None \<longrightarrow> fst st = []) \<Longrightarrow>
   (snd (parse_line st line) = None \<longrightarrow> fst (parse_line st line) = [])"
  by (cases st) (auto simp: parse_line_def Let_def split: option.splits)

lemma foldl_parse_line_closed:
  "(snd st = None \<longrightarrow> fst st = []) \<Longrightarrow>
   (snd (foldl parse_line st ls) = None \<longrightarrow> fst (foldl parse_line st ls) = [])"
proof (induction ls arbitrary: st)
  case Nil
  then show ?case by simp
next
  case (Cons l ls)
  show ?case using Cons.IH[OF parse_line_closed[OF Cons.prems]] by simp
qed

lemma parse_snoc:
  assumes "parse pre = hs @ [c]" "newline \<notin> set line"
  shows "parse (pre @ newline # line) = commit (parse_line (hs, Some c) line)"
proof -
  let ?st = "foldl parse_line ([], None) (split_newline pre)"
  have ne: "pre \<noteq> []" "trim pre \<noteq> []" and st: "commit ?st = hs @ [c]"
    using assms(1) by (auto simp: parse_def split: if_splits)
  have "snd ?st = None \<longrightarrow> fst ?st = []" by (rule foldl_parse_line_closed) simp
  then have "?st = (hs, Some c)"
    using st by (cases ?st) (auto simp: commit_def split: option.splits)
  moreover have "trim (pre @ newline # line) \<noteq> []"
    using ne(2) by (simp add: trim_Nil_iff)
  ultimately show ?thesis
    using assms(2) by (simp add: parse_def split_newline_snoc)
qed

lemma option_pattern_optMatch:
  assumes "t = k @ w @ v" "k \<noteq> []" "list_all is_word k" "w \<noteq> []" "list_all is_space w"
    "v \<noteq> []" "\<not> list_ex is_line_terminator v" "\<not> is_space (last t)"
  shows "optMatch t \<noteq> None"
proof -
  let ?w = "w @ takeWhile is_space v" and ?v = "dropWhile is_space v"
  have "last v = last t" using assms(1,6) by simp
  then have "\<not> is_space (last v)" using assms(8) by simp
  then have v: "?v \<noteq> []" using assms(6) by (auto simp: dropWhile_eq_Nil_conv)
  have "list_all is_space ?w"
    using assms(5) by (auto simp: list_all_iff dest: set_takeWhileD)
  moreover have "\<not> list_ex is_line_terminator ?v"
    using assms(7) by (auto simp: list_ex_iff dest: set_dropWhileD)
  moreover have "t = k @ ?w @ ?v" using assms(1) by simp
  ultimately have "optMatch t = Some (k, ?v)"
    using optMatch_intro[of k ?w ?v] assms(2,3,4) v hd_dropWhile[OF v] by simp
  then show ?thesis by simp
qed

lemma parse_line_records:
  assumes "trim line = k @ w @ v" "k \<noteq> []" "list_all is_word k" "w \<noteq> []" "list_all is_space w"
    "v \<noteq> []" "\<not> is_space (hd v)" "\<not> list_ex is_line_terminator v" "\<not> is_host_keyword k"
  shows "parse_line (hs, Some c) line = (hs, Some (set_prop c k v))"
proof -
  have "is_word (hd k)" using assms(2,3) by (cases k) auto
  then have "hd k \<noteq> 35" using H_not_space(3) by auto
  then have nc: "take 1 (k @ w @ v) \<noteq> js ''#''" using assms(2) by (cases k) (simp_all add: js_literals)
  have hm: "hostMatch (k @ w @ v) = None" using assms by (simp add: hostMatch_not_keyword)
  have om: "optMatch (k @ w @ v) = Some (k, v)" using assms by (simp add: optMatch_intro)
  show ?thesis
    unfolding parse_line_def Let_def assms(1) using nc hm om assms(2) by simp
qed

lemma parse_line_ignores:
  assumes "\<nexists>k w v. trim line = k @ w @ v \<and> k \<noteq> [] \<and> list_all is_word k \<and> w \<noteq> [] \<and>
    list_all is_space w \<and> v \<noteq> [] \<and> \<not> list_ex is_line_terminator v"
  shows "parse_line st line = st"
proof (cases "trim line = []")
  case True
  then show ?thesis by (simp add: parse_line_def)
next
  case False
  then have l: "\<not> is_space (last (trim line))" by (rule trim_ends(2))
  have "hostMatch (trim line) = None"
  proof (rule ccontr)
    assume "hostMatch (trim line) \<noteq> None"
    then obtain n where "hostMatch (trim line) = Some n" by auto
    from hostMatch_SomeD[OF False l this] show False using assms by blast
  qed
  moreover have "optMatch (trim line) = None"
  proof (rule ccontr)
    assume "optMatch (trim line) \<noteq> None"
    then obtain k v where "optMatch (trim line) = Some (k, v)" by auto
    from optMatch_SomeD[OF False l this] show False using assms by (auto simp: clean_def)
  qed
  ultimately show ?thesis by (cases st) (simp add: parse_line_def Let_def split: option.splits)
qed

section \<open>Evaluation of concrete inputs\<close>

lemmas eval_defs = parse_def js_def trim_def is_space_def parse_line_def commit_def hostMatch_def
  is_host_keyword_def match_rest_def optMatch_def is_word_def is_line_terminator_def
  set_prop_def array_index_def new_host_def newline_def is_digit_def keys_def entries_def
  read_def get_prop_def named_def decimal_value_def is_high_surrogate_def is_low_surrogate_def

lemmas eval_options = no_options_def supplied_def field_value_def or_else_def truthy_def
  recognized_def clean_options_def line_text_def clean_def well_formed_def list_ex_iff

lemmas eval_json = importConfig_def stringify_json_def json_host_lines_def json_name_text_def
  json_entries_def json_option_line_def listHosts_def

lemmas eval_ops = addHost_def editHost_def copyHost_def removeHost_def listHosts_def
  apply_options_def set_field_def write_file_def stringify_def host_lines_def
  option_entries_def option_line_def to_text_def Let_def

section \<open>The claims\<close>

text \<open>
  C1. For every collection that \<open>parse\<close> returns on some text, \<open>stringify\<close> followed by
  \<open>parse\<close> gives the same collection back: the same records in the same order, each
  with the same name and the same options with the same values in the same order (the
  order of \<open>Object.entries\<close>, which is all a program sees of the insertion order).
\<close>

theorem parse_stringify_parse: "parse (stringify (parse content)) = parse content"
  by (rule parse_stringify_wf) (rule parse_wf)




text \<open>
  C3, as the code has it.  Let the text \<open>pre\<close> end inside the record \<open>c\<close>, and let one
  more line follow.  When the trimmed line is a key \<open>k\<close> of word characters
  (\<open>[A-Za-z0-9_]\<close>), other than the keyword \<open>Host\<close> in any case and \<open>__proto__\<close>, then
  white space, then a remainder \<open>v\<close> free of line terminators, the record has \<open>k\<close> with
  the value \<open>v\<close> afterwards and its other keys as before.  When the trimmed line is not
  of the form word, white space, remainder at all, the result of \<open>parse\<close> is as without it.
\<close>

theorem parse_option_line:
  assumes "parse pre = hs @ [c]" and "newline \<notin> set line"
  shows "(\<forall>k w v. trim line = k @ w @ v \<and> k \<noteq> [] \<and> list_all is_word k \<and>
             w \<noteq> [] \<and> list_all is_space w \<and>
             v \<noteq> [] \<and> \<not> is_space (hd v) \<and> \<not> list_ex is_line_terminator v \<and>
             \<not> is_host_keyword k \<and> k \<noteq> js ''__proto__'' \<longrightarrow>
           (\<exists>c'. parse (pre @ newline # line) = hs @ [c'] \<and> get_prop c' k = Some v \<and>
                 (\<forall>k'. k' \<noteq> k \<longrightarrow> get_prop c' k' = get_prop c k'))) \<and>
         ((\<nexists>k w v. trim line = k @ w @ v \<and> k \<noteq> [] \<and> list_all is_word k \<and>
             w \<noteq> [] \<and> list_all is_space w \<and>
             v \<noteq> [] \<and> \<not> list_ex is_line_terminator v) \<longrightarrow>
           parse (pre @ newline # line) = hs @ [c])"
proof -
  note step = parse_snoc[OF assms]
  have "list_all wf_host (hs @ [c])" using parse_wf[of pre] assms(1) by simp
  then have ks: "key_split c" by (simp add: wf_host_key_split)
  have rec: "\<exists>c'. parse (pre @ newline # line) = hs @ [c'] \<and> get_prop c' k = Some v \<and>
      (\<forall>k'. k' \<noteq> k \<longrightarrow> get_prop c' k' = get_prop c k')"
    if a: "trim line = k @ w @ v \<and> k \<noteq> [] \<and> list_all is_word k \<and>
      w \<noteq> [] \<and> list_all is_space w \<and>
      v \<noteq> [] \<and> \<not> is_space (hd v) \<and> \<not> list_ex is_line_terminator v \<and>
      \<not> is_host_keyword k \<and> k \<noteq> js ''__proto__''" for k w v
  proof -
    have "parse_line (hs, Some c) line = (hs, Some (set_prop c k v))"
      using a by (intro parse_line_records[of line k w v]) simp_all
    then have "parse (pre @ newline # line) = hs @ [set_prop c k v]"
      using step by (simp add: commit_def)
    moreover have "get_prop (set_prop c k v) k' = (if k' = k then Some v else get_prop c k')" for k'
      using ks a by (simp add: get_set_prop)
    ultimately show ?thesis by (intro exI[of _ "set_prop c k v"]) simp
  qed
  have ign: "parse (pre @ newline # line) = hs @ [c]"
    if "\<nexists>k w v. trim line = k @ w @ v \<and> k \<noteq> [] \<and> list_all is_word k \<and>
      w \<noteq> [] \<and> list_all is_space w \<and> v \<noteq> [] \<and> \<not> list_ex is_line_terminator v"
    using step parse_line_ignores[OF that, of "(hs, Some c)"] by (simp add: commit_def)
  show ?thesis using rec ign by blast
qed

theorem parse_option_line_witness:
  "(\<exists>c'. parse (js ''Host a'' @ newline # js ''    User  bob smith'') = [c'] \<and>
         get_prop c' (js ''User'') = Some (js ''bob smith'') \<and>
         get_prop c' (js ''name'') = Some (js ''a'')) \<and>
   parse (js ''Host a'' @ newline # js ''    Foo-Bar baz'') = [new_host (js ''a'')]"
proof -
  have p: "parse (js ''Host a'') = [] @ [new_host (js ''a'')]" by (simp add: eval_defs)
  have n1: "newline \<notin> set (js ''    User  bob smith'')" by (simp add: js_def newline_def)
  have n2: "newline \<notin> set (js ''    Foo-Bar baz'')" by (simp add: js_def newline_def)
  have t1: "trim (js ''    User  bob smith'') = js ''User'' @ js ''  '' @ js ''bob smith''"
    by (simp add: trim_def js_def is_space_def)
  have c1: "js ''User'' \<noteq> [] \<and> list_all is_word (js ''User'') \<and>
      js ''  '' \<noteq> [] \<and> list_all is_space (js ''  '') \<and>
      js ''bob smith'' \<noteq> [] \<and> \<not> is_space (hd (js ''bob smith'')) \<and>
      \<not> list_ex is_line_terminator (js ''bob smith'') \<and>
      \<not> is_host_keyword (js ''User'') \<and> js ''User'' \<noteq> js ''__proto__''"
    by (simp add: js_def is_word_def is_space_def is_line_terminator_def is_host_keyword_def)
  have g: "get_prop (new_host (js ''a'')) (js ''name'') = Some (js ''a'')"
    by (simp add: get_prop_def new_host_def entries_def)
  have ne: "js ''name'' \<noteq> js ''User''" by (simp add: js_def)
  from parse_option_line[OF p n1] t1 c1
  obtain c' where "parse (js ''Host a'' @ newline # js ''    User  bob smith'') = [] @ [c']"
    "get_prop c' (js ''User'') = Some (js ''bob smith'')"
    "\<forall>k'. k' \<noteq> js ''User'' \<longrightarrow> get_prop c' k' = get_prop (new_host (js ''a'')) k'"
    by blast
  then have 1: "\<exists>c'. parse (js ''Host a'' @ newline # js ''    User  bob smith'') = [c'] \<and>
      get_prop c' (js ''User'') = Some (js ''bob smith'') \<and>
      get_prop c' (js ''name'') = Some (js ''a'')"
    using g ne by auto
  have t2: "trim (js ''    Foo-Bar baz'') = js ''Foo-Bar baz''"
    by (simp add: trim_def js_def is_space_def)
  have l2: "\<not> is_space (last (js ''Foo-Bar baz''))" by (simp add: js_def is_space_def)
  have o2: "optMatch (js ''Foo-Bar baz'') = None"
    by (simp add: optMatch_def match_rest_def js_def is_word_def is_space_def)
  have "\<nexists>k w v. trim (js ''    Foo-Bar baz'') = k @ w @ v \<and> k \<noteq> [] \<and> list_all is_word k \<and>
      w \<noteq> [] \<and> list_all is_space w \<and> v \<noteq> [] \<and> \<not> list_ex is_line_terminator v"
    unfolding t2 using option_pattern_optMatch[OF _ _ _ _ _ _ _ l2] o2 by blast
  then have 2: "parse (js ''Host a'' @ newline # js ''    Foo-Bar baz'') = [new_host (js ''a'')]"
    using parse_option_line[OF p n2] by simp
  show ?thesis using 1 2 by blast
qed

text \<open>
  C3 as stated fails on the line \<open>Foo-Bar baz\<close>: a key of non-blank characters, white
  space and a remainder, inside the record \<open>a\<close>; nothing is recorded.
\<close>

theorem parse_drops_non_word_key:
  "parse (js ''Host a\<newline>    Foo-Bar baz'') = [new_host (js ''a'')] \<and>
   get_prop (new_host (js ''a'')) (js ''Foo-Bar'') = None"
  by (simp add: eval_defs)

text \<open>
  C4, as the code has it.  With \<open>d\<close> the outcome of \<open>JSON.parse\<close>: \<open>importConfig\<close> returns
  \<open>Invalid JSON\<close> exactly when the text does not decode, and \<open>Expected array of hosts\<close>
  exactly when the decoded value is not an array; the elements of an array are not
  inspected.  The file is untouched whenever the call does not succeed, which includes a
  TypeError thrown while an array is serialized.  On success the count is the length of the
  array and the file holds the serialized array, whatever it held before; for an array of
  records as \<open>parse\<close> returns them on a decoded text, the file then holds exactly these
  records.
\<close>

theorem importConfig_replaces_file:
  "(fst (importConfig d f) = Inl InvalidJSON \<longleftrightarrow> d = None) \<and>
   (fst (importConfig d f) = Inl ExpectedArray \<longleftrightarrow> (\<exists>v. d = Some v \<and> (\<forall>hosts. v \<noteq> JArray hosts))) \<and>
   (\<forall>e. fst (importConfig d f) = Inl e \<longrightarrow> snd (importConfig d f) = f) \<and>
   (\<forall>hosts. d = Some (JArray hosts) \<longrightarrow>
      importConfig d f
        = (case stringify_json hosts of
             None \<Rightarrow> (Inl TypeError, f)
           | Some content \<Rightarrow> (Inr (length hosts), Some (utf8_text content)))) \<and>
   (\<forall>hs. d = Some (JArray (map to_json hs)) \<and> list_all stored_host hs \<longrightarrow>
      importConfig d f = (Inr (length hs), write_file hs) \<and> read (write_file hs) = hs)"
proof (intro conjI allI impI)
  show "fst (importConfig d f) = Inl InvalidJSON \<longleftrightarrow> d = None"
    by (auto simp: importConfig_def split: option.splits json.splits)
  show "fst (importConfig d f) = Inl ExpectedArray
      \<longleftrightarrow> (\<exists>v. d = Some v \<and> (\<forall>hosts. v \<noteq> JArray hosts))"
    by (auto simp: importConfig_def split: option.splits json.splits)
  show "snd (importConfig d f) = f" if "fst (importConfig d f) = Inl e" for e
    using that by (auto simp: importConfig_def split: option.splits json.splits)
  show "importConfig d f
      = (case stringify_json hosts of
           None \<Rightarrow> (Inl TypeError, f)
         | Some content \<Rightarrow> (Inr (length hosts), Some (utf8_text content)))"
    if "d = Some (JArray hosts)" for hosts
    using that by (simp add: importConfig_def)
  show "importConfig d f = (Inr (length hs), write_file hs)"
    if "d = Some (JArray (map to_json hs)) \<and> list_all stored_host hs" for hs
    using that by (simp add: importConfig_def stringify_json_hosts write_file_def)
  show "read (write_file hs) = hs"
    if "d = Some (JArray (map to_json hs)) \<and> list_all stored_host hs" for hs
    using that by (simp add: read_write_file)
qed

theorem importConfig_replaces_file_witness:
  "fst (importConfig None (Some (js ''Host old''))) = Inl InvalidJSON \<and>
   snd (importConfig None (Some (js ''Host old''))) = Some (js ''Host old'') \<and>
   fst (importConfig (Some (JObject [(js ''a'', JNumber (js ''1''))])) (Some (js ''Host old'')))
     = Inl ExpectedArray \<and>
   snd (importConfig (Some (JObject [(js ''a'', JNumber (js ''1''))])) (Some (js ''Host old'')))
     = Some (js ''Host old'') \<and>
   importConfig (Some (JArray [JNull])) (Some (js ''Host old''))
     = (Inl TypeError, Some (js ''Host old'')) \<and>
   importConfig (Some (JArray (map to_json [new_host (js ''a'')]))) (Some (js ''Host old''))
     = (Inr 1, write_file [new_host (js ''a'')]) \<and>
   read (write_file [new_host (js ''a'')]) = [new_host (js ''a'')]"
proof -
  let ?f = "Some (js ''Host old'')"
  note t = importConfig_replaces_file
  have "line_text (js ''a'')"
    by (simp add: line_text_def clean_def well_formed_def js_def is_space_def is_line_terminator_def
        is_high_surrogate_def is_low_surrogate_def)
  then have wf: "list_all stored_host [new_host (js ''a'')]" by (simp add: stored_new_host)
  have 1: "fst (importConfig None ?f) = Inl InvalidJSON" using t[of None ?f] by blast
  then have 2: "snd (importConfig None ?f) = ?f" using t[of None ?f] by blast
  let ?o = "Some (JObject [(js ''a'', JNumber (js ''1''))])"
  have 3: "fst (importConfig ?o ?f) = Inl ExpectedArray" using t[of ?o ?f] by blast
  then have 4: "snd (importConfig ?o ?f) = ?f" using t[of ?o ?f] by blast
  have "stringify_json [JNull] = None" by (simp add: eval_json)
  then have 5: "importConfig (Some (JArray [JNull])) ?f = (Inl TypeError, ?f)"
    using t[of "Some (JArray [JNull])" ?f] by simp
  let ?a = "Some (JArray (map to_json [new_host (js ''a'')]))"
  have 6: "importConfig ?a ?f = (Inr (length [new_host (js ''a'')]), write_file [new_host (js ''a'')])
      \<and> read (write_file [new_host (js ''a'')]) = [new_host (js ''a'')]"
    using t[of ?a ?f] wf by blast
  show ?thesis using 1 2 3 4 5 6 by simp
qed

text \<open>
  C4 as stated fails on \<open>[1]\<close>, an array whose only element is not a record: no
  \<open>Expected array of hosts\<close>, the call succeeds and the file becomes \<open>Host undefined\<close>.
\<close>

theorem importConfig_accepts_any_array:
  "importConfig (Some (JArray [JNumber (js ''1'')])) (Some (js ''Host old''))
     = (Inr 1, Some (js ''Host undefined\<newline>''))"
  by (simp add: eval_json js_def newline_def is_high_surrogate_def is_low_surrogate_def)

text \<open>
  C5, as the code has it.  \<open>editHost name opts\<close> fails with \<open>Host not found\<close>, the file
  untouched, when no record has that name.  Otherwise the first record \<open>h\<close> of that name
  becomes \<open>h'\<close>, every other record stays as it is, and that collection is serialized
  into the file.  In \<open>h'\<close> each recognized key with a supplied value has that value and
  every other key the value it had in \<open>h\<close>; the keys of \<open>h\<close> keep their positions, the
  recognized keys that \<open>h\<close> lacked follow them.  The file read again gives that very
  collection when the supplied values are texts a line can carry: not empty, no white
  space at either end, no line terminator, no lone surrogate.
\<close>

theorem editHost_partial_update:
  "(\<not> list_ex (named name) (read f) \<longrightarrow> editHost name opts f = (Inl (HostNotFound name), f)) \<and>
   (\<forall>xs h ys. read f = xs @ h # ys \<and> named name h \<and> \<not> list_ex (named name) xs \<longrightarrow>
      (\<exists>h'. editHost name opts f = (Inr h', write_file (xs @ h' # ys)) \<and>
            (\<forall>k. get_prop h' k = (case supplied opts k of None \<Rightarrow> get_prop h k | Some v \<Rightarrow> Some v)) \<and>
            keys h' = keys h @ filter (\<lambda>k. supplied opts k \<noteq> None \<and> k \<notin> set (keys h)) recognized \<and>
            (clean_options opts \<longrightarrow> read (write_file (xs @ h' # ys)) = xs @ h' # ys)))"
proof (intro conjI allI impI)
  assume "\<not> list_ex (named name) (read f)"
  then show "editHost name opts f = (Inl (HostNotFound name), f)" by (rule editHost_missing)
next
  fix xs h ys
  assume a: "read f = xs @ h # ys \<and> named name h \<and> \<not> list_ex (named name) xs"
  let ?h' = "apply_options h opts"
  have fn: "first_named name (read f) xs h ys" using a by (simp add: first_named_def)
  have wfs: "list_all stored_host (xs @ h # ys)" using read_stored[of f] a by simp
  then have wf: "stored_host h" by simp
  then have ks: "key_split h" by (simp add: stored_host_iff wf_host_key_split)
  have 1: "editHost name opts f = (Inr ?h', write_file (xs @ ?h' # ys))"
    using fn by (rule editHost_found)
  have 2: "\<forall>k. get_prop ?h' k = (case supplied opts k of None \<Rightarrow> get_prop h k | Some v \<Rightarrow> Some v)"
    using ks by (simp add: get_apply_options)
  have 3: "keys ?h' = keys h @ filter (\<lambda>k. supplied opts k \<noteq> None \<and> k \<notin> set (keys h)) recognized"
    using ks by (rule keys_apply_options)
  have 4: "clean_options opts \<longrightarrow> read (write_file (xs @ ?h' # ys)) = xs @ ?h' # ys"
  proof
    assume "clean_options opts"
    then have "stored_host ?h'" using wf stored_apply_options by blast
    then have "list_all stored_host (xs @ ?h' # ys)" using wfs by simp
    then show "read (write_file (xs @ ?h' # ys)) = xs @ ?h' # ys" by (rule read_write_file)
  qed
  show "\<exists>h'. editHost name opts f = (Inr h', write_file (xs @ h' # ys)) \<and>
            (\<forall>k. get_prop h' k = (case supplied opts k of None \<Rightarrow> get_prop h k | Some v \<Rightarrow> Some v)) \<and>
            keys h' = keys h @ filter (\<lambda>k. supplied opts k \<noteq> None \<and> k \<notin> set (keys h)) recognized \<and>
            (clean_options opts \<longrightarrow> read (write_file (xs @ h' # ys)) = xs @ h' # ys)"
    using 1 2 3 4 by blast
qed

theorem editHost_partial_update_witness:
  "\<exists>h'. editHost (js ''a'') (no_options\<lparr>port := Some (js ''3333'')\<rparr>)
           (Some (js ''Host a\<newline>    User u\<newline>    Port 22\<newline>    IdentityFile k\<newline>Host b''))
         = (Inr h', write_file [h', new_host (js ''b'')]) \<and>
        get_prop h' (js ''Port'') = Some (js ''3333'') \<and>
        get_prop h' (js ''User'') = Some (js ''u'') \<and>
        get_prop h' (js ''IdentityFile'') = Some (js ''k'') \<and>
        keys h' = [js ''name'', js ''User'', js ''Port'', js ''IdentityFile''] \<and>
        read (write_file [h', new_host (js ''b'')]) = [h', new_host (js ''b'')]"
proof -
  let ?f = "Some (js ''Host a\<newline>    User u\<newline>    Port 22\<newline>    IdentityFile k\<newline>Host b'')"
  let ?opts = "no_options\<lparr>port := Some (js ''3333'')\<rparr>"
  let ?h = "\<lparr>elements = [], properties = [(js ''name'', js ''a''), (js ''User'', js ''u''),
    (js ''Port'', js ''22''), (js ''IdentityFile'', js ''k'')]\<rparr>"
  have r: "read ?f = [] @ ?h # [new_host (js ''b'')]" by (simp add: eval_defs)
  have n: "named (js ''a'') ?h" "\<not> list_ex (named (js ''a'')) []" by (simp_all add: eval_defs)
  have c: "clean_options ?opts"
    by (simp add: eval_options js_def is_space_def is_line_terminator_def is_high_surrogate_def
        is_low_surrogate_def)
  have s: "supplied ?opts (js ''Port'') = Some (js ''3333'')" "supplied ?opts (js ''User'') = None"
    "supplied ?opts (js ''IdentityFile'') = None" "supplied ?opts (js ''HostName'') = None"
    by (simp_all add: eval_options js_def)
  have k: "keys ?h = [js ''name'', js ''User'', js ''Port'', js ''IdentityFile'']"
    by (simp add: keys_def entries_def)
  have g: "get_prop ?h (js ''User'') = Some (js ''u'')" "get_prop ?h (js ''IdentityFile'') = Some (js ''k'')"
    by (simp_all add: get_prop_def entries_def js_def)
  from editHost_partial_update[of "js ''a''" ?f ?opts] r n
  obtain h' where h': "editHost (js ''a'') ?opts ?f = (Inr h', write_file ([] @ h' # [new_host (js ''b'')]))"
    "\<forall>k. get_prop h' k = (case supplied ?opts k of None \<Rightarrow> get_prop ?h k | Some v \<Rightarrow> Some v)"
    "keys h' = keys ?h @ filter (\<lambda>k. supplied ?opts k \<noteq> None \<and> k \<notin> set (keys ?h)) recognized"
    "clean_options ?opts \<longrightarrow> read (write_file ([] @ h' # [new_host (js ''b'')])) = [] @ h' # [new_host (js ''b'')]"
    by blast
  have "keys h' = [js ''name'', js ''User'', js ''Port'', js ''IdentityFile'']"
    unfolding h'(3) k using s by (simp add: recognized_def)
  then show ?thesis using h'(1,2,4) c s g by (intro exI[of _ h']) simp
qed

text \<open>
  C5 as stated fails in the file for a value with a line feed: \<open>editHost\<close> of \<open>a\<close> with
  the user \<open>w\<close>, line feed, \<open>Host b\<close> writes that value as it is, and the file read again
  has a record \<open>a\<close> without its \<open>Port\<close> and a new record \<open>b\<close> that has it.
\<close>

theorem editHost_value_with_line_feed:
  "fst (editHost (js ''a'') (no_options\<lparr>user := Some (js ''w\<newline>Host b'')\<rparr>)
          (Some (js ''Host a\<newline>    User u\<newline>    Port 22'')))
     = Inr \<lparr>elements = [], properties = [(js ''name'', js ''a''),
         (js ''User'', js ''w\<newline>Host b''), (js ''Port'', js ''22'')]\<rparr> \<and>
   read (snd (editHost (js ''a'') (no_options\<lparr>user := Some (js ''w\<newline>Host b'')\<rparr>)
          (Some (js ''Host a\<newline>    User u\<newline>    Port 22''))))
     = [\<lparr>elements = [], properties = [(js ''name'', js ''a''), (js ''User'', js ''w'')]\<rparr>,
        \<lparr>elements = [], properties = [(js ''name'', js ''b''), (js ''Port'', js ''22'')]\<rparr>]"
  by (simp add: eval_ops eval_options eval_defs)

text \<open>
  C6, as the code has it.  \<open>copyHost from to\<close> fails with \<open>Host not found\<close> when no
  record is named \<open>from\<close>, and with \<open>Host already exists\<close> when one is and a record
  named \<open>to\<close> exists too; the file is untouched in both cases.  Otherwise it returns a
  record \<open>n\<close> named \<open>to\<close> with the options of the first record named \<open>from\<close>, same
  values in the same order, and serializes the collection with \<open>n\<close> appended into the
  file.  When \<open>to\<close> is a text a \<open>Host\<close> line can carry (not empty, no white space at
  either end, no line terminator, no lone surrogate), the file read again gives that
  collection, and a later \<open>editHost\<close> of either record writes a collection in which the
  other record, like every record but the edited one, is as it was.
\<close>

theorem copyHost_independent_copy:
  "(\<not> list_ex (named from) (read f) \<longrightarrow> copyHost from to f = (Inl (HostNotFound from), f)) \<and>
   (list_ex (named from) (read f) \<and> list_ex (named to) (read f) \<longrightarrow>
      copyHost from to f = (Inl (HostExists to), f)) \<and>
   (\<forall>xs s ys. read f = xs @ s # ys \<and> named from s \<and> \<not> list_ex (named from) xs \<and>
        \<not> list_ex (named to) (read f) \<longrightarrow>
      (\<exists>n. copyHost from to f = (Inr n, write_file (read f @ [n])) \<and>
           named to n \<and> option_entries n = option_entries s \<and>
           (line_text to \<longrightarrow>
              read (write_file (read f @ [n])) = read f @ [n] \<and>
              (\<forall>opts. \<exists>n'. editHost to opts (write_file (read f @ [n]))
                               = (Inr n', write_file (read f @ [n'])) \<and>
                             (clean_options opts \<longrightarrow>
                                read (write_file (read f @ [n'])) = read f @ [n'])) \<and>
              (\<forall>opts. \<exists>s'. editHost from opts (write_file (read f @ [n]))
                               = (Inr s', write_file (xs @ s' # ys @ [n])) \<and>
                             (clean_options opts \<longrightarrow>
                                read (write_file (xs @ s' # ys @ [n])) = xs @ s' # ys @ [n])))))"
proof (intro conjI allI impI)
  assume "\<not> list_ex (named from) (read f)"
  then show "copyHost from to f = (Inl (HostNotFound from), f)" by (rule copyHost_missing)
next
  assume "list_ex (named from) (read f) \<and> list_ex (named to) (read f)"
  then show "copyHost from to f = (Inl (HostExists to), f)" by (simp add: copyHost_exists)
next
  fix xs s ys
  assume a: "read f = xs @ s # ys \<and> named from s \<and> \<not> list_ex (named from) xs \<and>
    \<not> list_ex (named to) (read f)"
  let ?n = "set_prop s (js ''name'') to"
  let ?f' = "write_file (read f @ [?n])"
  have fn: "first_named from (read f) xs s ys" using a by (simp add: first_named_def)
  have fresh: "\<not> list_ex (named to) (read f)" using a by blast
  have wfs: "list_all stored_host (read f)" by (rule read_stored)
  then have st: "stored_host s" using a by simp
  then have wf: "wf_host s" by (simp add: stored_host_iff)
  have 1: "copyHost from to f = (Inr ?n, ?f')" using fn fresh by (rule copyHost_fresh)
  have 2: "named to ?n" using wf by (simp add: named_set_name wf_host_key_split)
  have 3: "option_entries ?n = option_entries s" using wf by (rule option_entries_set_name)
  have 4: "line_text to \<longrightarrow>
      read ?f' = read f @ [?n] \<and>
      (\<forall>opts. \<exists>n'. editHost to opts ?f' = (Inr n', write_file (read f @ [n'])) \<and>
         (clean_options opts \<longrightarrow> read (write_file (read f @ [n'])) = read f @ [n'])) \<and>
      (\<forall>opts. \<exists>s'. editHost from opts ?f' = (Inr s', write_file (xs @ s' # ys @ [?n])) \<and>
         (clean_options opts \<longrightarrow> read (write_file (xs @ s' # ys @ [?n])) = xs @ s' # ys @ [?n]))"
  proof (intro impI conjI allI)
    assume c: "line_text to"
    then have wfn: "stored_host ?n" using st stored_set_name by blast
    then have wfa: "list_all stored_host (read f @ [?n])" using wfs by simp
    then show r: "read ?f' = read f @ [?n]" by (rule read_write_file)
    fix opts
    have "first_named to (read ?f') (read f) ?n []"
      using r 2 fresh by (simp add: first_named_def)
    then have e1: "editHost to opts ?f'
        = (Inr (apply_options ?n opts), write_file (read f @ apply_options ?n opts # []))"
      by (rule editHost_found)
    have "clean_options opts \<longrightarrow>
        read (write_file (read f @ [apply_options ?n opts])) = read f @ [apply_options ?n opts]"
      using wfs wfn by (simp add: read_write_file stored_apply_options)
    then show "\<exists>n'. editHost to opts ?f' = (Inr n', write_file (read f @ [n'])) \<and>
        (clean_options opts \<longrightarrow> read (write_file (read f @ [n'])) = read f @ [n'])"
      using e1 by blast
    have "first_named from (read ?f') xs s (ys @ [?n])"
      using r a by (simp add: first_named_def)
    then have e2: "editHost from opts ?f'
        = (Inr (apply_options s opts), write_file (xs @ apply_options s opts # ys @ [?n]))"
      by (rule editHost_found)
    have "list_all stored_host (xs @ s # ys @ [?n])" using wfa a by simp
    then have "clean_options opts \<longrightarrow>
        read (write_file (xs @ apply_options s opts # ys @ [?n]))
          = xs @ apply_options s opts # ys @ [?n]"
      using st by (simp add: read_write_file stored_apply_options)
    then show "\<exists>s'. editHost from opts ?f' = (Inr s', write_file (xs @ s' # ys @ [?n])) \<and>
        (clean_options opts \<longrightarrow> read (write_file (xs @ s' # ys @ [?n])) = xs @ s' # ys @ [?n])"
      using e2 by blast
  qed
  show "\<exists>n. copyHost from to f = (Inr n, write_file (read f @ [n])) \<and>
           named to n \<and> option_entries n = option_entries s \<and>
           (line_text to \<longrightarrow>
              read (write_file (read f @ [n])) = read f @ [n] \<and>
              (\<forall>opts. \<exists>n'. editHost to opts (write_file (read f @ [n]))
                               = (Inr n', write_file (read f @ [n'])) \<and>
                             (clean_options opts \<longrightarrow>
                                read (write_file (read f @ [n'])) = read f @ [n'])) \<and>
              (\<forall>opts. \<exists>s'. editHost from opts (write_file (read f @ [n]))
                               = (Inr s', write_file (xs @ s' # ys @ [n])) \<and>
                             (clean_options opts \<longrightarrow>
                                read (write_file (xs @ s' # ys @ [n])) = xs @ s' # ys @ [n])))"
    using 1 2 3 4 by (intro exI[of _ ?n]) blast
qed

theorem copyHost_independent_copy_witness:
  "copyHost (js ''z'') (js ''b'') (Some (js ''Host a\<newline>    User u''))
     = (Inl (HostNotFound (js ''z'')), Some (js ''Host a\<newline>    User u'')) \<and>
   copyHost (js ''a'') (js ''a'') (Some (js ''Host a\<newline>    User u''))
     = (Inl (HostExists (js ''a'')), Some (js ''Host a\<newline>    User u'')) \<and>
   (\<exists>n. copyHost (js ''a'') (js ''b'') (Some (js ''Host a\<newline>    User u''))
          = (Inr n, write_file (read (Some (js ''Host a\<newline>    User u'')) @ [n])) \<and>
        named (js ''b'') n \<and>
        option_entries n = [(js ''User'', js ''u'')] \<and>
        read (write_file (read (Some (js ''Host a\<newline>    User u'')) @ [n]))
          = read (Some (js ''Host a\<newline>    User u'')) @ [n] \<and>
        (\<exists>n'. editHost (js ''b'') (no_options\<lparr>user := Some (js ''w'')\<rparr>)
                 (write_file (read (Some (js ''Host a\<newline>    User u'')) @ [n]))
               = (Inr n', write_file (read (Some (js ''Host a\<newline>    User u'')) @ [n']))) \<and>
        (\<exists>s'. editHost (js ''a'') (no_options\<lparr>user := Some (js ''w'')\<rparr>)
                 (write_file (read (Some (js ''Host a\<newline>    User u'')) @ [n]))
               = (Inr s', write_file ([s', n]))))"
proof -
  let ?f = "Some (js ''Host a\<newline>    User u'')"
  let ?s = "\<lparr>elements = [], properties = [(js ''name'', js ''a''), (js ''User'', js ''u'')]\<rparr>"
  have r: "read ?f = [] @ ?s # []" by (simp add: eval_defs)
  have a: "named (js ''a'') ?s" "\<not> list_ex (named (js ''a'')) []" by (simp_all add: eval_defs)
  have pa: "list_ex (named (js ''a'')) (read ?f)" unfolding r using a(1) by simp
  have b: "\<not> list_ex (named (js ''b'')) (read ?f)" unfolding r by (simp add: eval_defs)
  have z: "\<not> list_ex (named (js ''z'')) (read ?f)" unfolding r by (simp add: eval_defs)
  have c: "line_text (js ''b'')"
    by (simp add: line_text_def clean_def well_formed_def js_def is_space_def
        is_line_terminator_def is_high_surrogate_def is_low_surrogate_def)
  have o: "option_entries ?s = [(js ''User'', js ''u'')]"
    by (simp add: option_entries_def entries_def js_def)
  note t = copyHost_independent_copy
  have 1: "copyHost (js ''z'') (js ''b'') ?f = (Inl (HostNotFound (js ''z'')), ?f)"
    using t[of "js ''z''" ?f "js ''b''"] z by blast
  have 2: "copyHost (js ''a'') (js ''a'') ?f = (Inl (HostExists (js ''a'')), ?f)"
    using t[of "js ''a''" ?f "js ''a''"] pa by blast
  from t[of "js ''a''" ?f "js ''b''"] r a b c
  obtain n where n: "copyHost (js ''a'') (js ''b'') ?f = (Inr n, write_file (read ?f @ [n]))"
    "named (js ''b'') n" "option_entries n = option_entries ?s"
    "read (write_file (read ?f @ [n])) = read ?f @ [n]"
    "\<forall>opts. \<exists>n'. editHost (js ''b'') opts (write_file (read ?f @ [n]))
         = (Inr n', write_file (read ?f @ [n'])) \<and>
       (clean_options opts \<longrightarrow> read (write_file (read ?f @ [n'])) = read ?f @ [n'])"
    "\<forall>opts. \<exists>s'. editHost (js ''a'') opts (write_file (read ?f @ [n]))
         = (Inr s', write_file ([] @ s' # [] @ [n])) \<and>
       (clean_options opts \<longrightarrow> read (write_file ([] @ s' # [] @ [n])) = [] @ s' # [] @ [n])"
    by blast
  have 3: "\<exists>n'. editHost (js ''b'') (no_options\<lparr>user := Some (js ''w'')\<rparr>)
      (write_file (read ?f @ [n])) = (Inr n', write_file (read ?f @ [n']))"
    using n(5) by blast
  have 4: "\<exists>s'. editHost (js ''a'') (no_options\<lparr>user := Some (js ''w'')\<rparr>)
      (write_file (read ?f @ [n])) = (Inr s', write_file [s', n])"
    using n(6) by (metis append_Cons append_Nil)
  show ?thesis using 1 2 n(1,2,4) n(3)[unfolded o] 3 4 by blast
qed

text \<open>
  C6 as stated fails in the file for a destination name that ends with a blank:
  \<open>copyHost\<close> of \<open>a\<close> to \<open>b\<close> followed by a blank succeeds, but the file read again
  has the new record under the name \<open>b\<close>, and a later \<open>editHost\<close> of the name given to
  \<open>copyHost\<close> finds no record.
\<close>

theorem copyHost_name_with_blank:
  "fst (copyHost (js ''a'') (js ''b '') (Some (js ''Host a\<newline>    User u'')))
     = Inr \<lparr>elements = [], properties = [(js ''name'', js ''b ''), (js ''User'', js ''u'')]\<rparr> \<and>
   listHosts (snd (copyHost (js ''a'') (js ''b '') (Some (js ''Host a\<newline>    User u''))))
     = [Some (js ''a''), Some (js ''b'')] \<and>
   fst (editHost (js ''b '') (no_options\<lparr>user := Some (js ''w'')\<rparr>)
          (snd (copyHost (js ''a'') (js ''b '') (Some (js ''Host a\<newline>    User u'')))))
     = Inl (HostNotFound (js ''b ''))"
  by (simp add: eval_ops eval_options eval_defs)

text \<open>
  C7. \<open>removeHost name\<close> fails with \<open>Host not found\<close> and leaves the file as it is when no
  record has that name; otherwise it writes the collection without the first record of
  that name, all other records in their order, and that collection is what the file then
  holds.
\<close>

theorem removeHost_deletes_one:
  "(\<not> list_ex (named name) (read f) \<longrightarrow> removeHost name f = (Inl (HostNotFound name), f)) \<and>
   (\<forall>xs h ys. read f = xs @ h # ys \<and> named name h \<and> \<not> list_ex (named name) xs \<longrightarrow>
      removeHost name f = (Inr (), write_file (xs @ ys)) \<and> read (write_file (xs @ ys)) = xs @ ys)"
proof (intro conjI allI impI)
  assume "\<not> list_ex (named name) (read f)"
  then show "removeHost name f = (Inl (HostNotFound name), f)" by (rule removeHost_missing)
next
  fix xs h ys
  assume a: "read f = xs @ h # ys \<and> named name h \<and> \<not> list_ex (named name) xs"
  then have "first_named name (read f) xs h ys" by (simp add: first_named_def)
  then show "removeHost name f = (Inr (), write_file (xs @ ys))" by (rule removeHost_found)
  have "list_all stored_host (xs @ h # ys)" using read_stored[of f] a by simp
  then have "list_all stored_host (xs @ ys)" by simp
  then show "read (write_file (xs @ ys)) = xs @ ys" by (rule read_write_file)
qed

theorem removeHost_deletes_one_witness:
  "removeHost (js ''b'') (Some (js ''Host a\<newline>Host b\<newline>Host c''))
     = (Inr (), write_file [new_host (js ''a''), new_host (js ''c'')]) \<and>
   read (write_file [new_host (js ''a''), new_host (js ''c'')])
     = [new_host (js ''a''), new_host (js ''c'')] \<and>
   removeHost (js ''z'') (Some (js ''Host a\<newline>Host b\<newline>Host c''))
     = (Inl (HostNotFound (js ''z'')), Some (js ''Host a\<newline>Host b\<newline>Host c''))"
proof -
  let ?f = "Some (js ''Host a\<newline>Host b\<newline>Host c'')"
  have r: "read ?f = [new_host (js ''a'')] @ new_host (js ''b'') # [new_host (js ''c'')]"
    by (simp add: eval_defs)
  have n: "named (js ''b'') (new_host (js ''b''))" "\<not> list_ex (named (js ''b'')) [new_host (js ''a'')]"
    by (simp_all add: eval_defs)
  have z: "\<not> list_ex (named (js ''z'')) (read ?f)" unfolding r by (simp add: eval_defs)
  show ?thesis
    using removeHost_deletes_one[of "js ''b''" ?f] removeHost_deletes_one[of "js ''z''" ?f] r n z
    by (metis append_Cons append_Nil)
qed

text \<open>
  C8. Let the text \<open>pre\<close> end inside the record \<open>c\<close>, and let one more option line
  follow whose key \<open>k\<close> the record has already.  Then the record has the same keys in the
  same order as before, \<open>k\<close> has the value of the new line, and every other key the value
  it had.
\<close>

theorem parse_repeated_key:
  assumes "parse pre = hs @ [c]" and "newline \<notin> set line"
    and "trim line = k @ w @ v" and "k \<noteq> []" and "list_all is_word k"
    and "w \<noteq> []" and "list_all is_space w"
    and "v \<noteq> []" and "\<not> is_space (hd v)" and "\<not> list_ex is_line_terminator v"
    and "k \<in> set (keys c)"
  shows "\<exists>c'. parse (pre @ newline # line) = hs @ [c'] \<and> keys c' = keys c \<and>
           get_prop c' k = Some v \<and> (\<forall>k'. k' \<noteq> k \<longrightarrow> get_prop c' k' = get_prop c k')"
proof -
  have "list_all wf_host (hs @ [c])" using parse_wf[of pre] assms(1) by simp
  then have wf: "wf_host c" by simp
  then have np: "k \<noteq> js ''__proto__''" and nk: "\<not> is_host_keyword k"
    using assms(11) wf_key_not_keys wf_host_keys_not_keyword by blast+
  have "parse_line (hs, Some c) line = (hs, Some (set_prop c k v))"
    using assms(3-10) nk by (rule parse_line_records)
  then have "parse (pre @ newline # line) = hs @ [set_prop c k v]"
    using parse_snoc[OF assms(1,2)] by (simp add: commit_def)
  moreover have "keys (set_prop c k v) = keys c"
    using wf assms(11) by (rule keys_set_prop_present)
  moreover have "get_prop (set_prop c k v) k' = (if k' = k then Some v else get_prop c k')" for k'
    using wf np by (simp add: get_set_prop wf_host_key_split)
  ultimately show ?thesis by (intro exI[of _ "set_prop c k v"]) simp
qed

theorem parse_repeated_key_witness:
  "\<exists>c'. parse (js ''Host a\<newline>    User u\<newline>    Port 22'' @ newline # js ''    User w'') = [c'] \<and>
        keys c' = [js ''name'', js ''User'', js ''Port''] \<and>
        get_prop c' (js ''User'') = Some (js ''w'') \<and>
        get_prop c' (js ''Port'') = Some (js ''22'')"
proof -
  let ?c = "\<lparr>elements = [], properties = [(js ''name'', js ''a''), (js ''User'', js ''u''),
    (js ''Port'', js ''22'')]\<rparr>"
  have p: "parse (js ''Host a\<newline>    User u\<newline>    Port 22'') = [] @ [?c]" by (simp add: eval_defs)
  have n: "newline \<notin> set (js ''    User w'')" by (simp add: js_def newline_def)
  have t: "trim (js ''    User w'') = js ''User'' @ js '' '' @ js ''w''"
    by (simp add: trim_def js_def is_space_def)
  have c: "js ''User'' \<noteq> []" "list_all is_word (js ''User'')"
      "js '' '' \<noteq> []" "list_all is_space (js '' '')"
      "js ''w'' \<noteq> []" "\<not> is_space (hd (js ''w''))"
      "\<not> list_ex is_line_terminator (js ''w'')"
    by (simp_all add: js_def is_word_def is_space_def is_line_terminator_def)
  have k: "keys ?c = [js ''name'', js ''User'', js ''Port'']" by (simp add: keys_def entries_def)
  then have m: "js ''User'' \<in> set (keys ?c)" by simp
  have g: "get_prop ?c (js ''Port'') = Some (js ''22'')" by (simp add: get_prop_def entries_def js_def)
  have ne: "js ''Port'' \<noteq> js ''User''" by (simp add: js_def)
  from parse_repeated_key[OF p n t c m]
  obtain c' where "parse (js ''Host a\<newline>    User u\<newline>    Port 22'' @ newline # js ''    User w'') = [] @ [c']"
    "keys c' = keys ?c" "get_prop c' (js ''User'') = Some (js ''w'')"
    "\<forall>k'. k' \<noteq> js ''User'' \<longrightarrow> get_prop c' k' = get_prop ?c k'"
    by blast
  then show ?thesis using k g ne by auto
qed

text \<open>
  C9 fails on the code: an option line with the key \<open>name\<close> inside the block replaces the
  name taken from the \<open>Host\<close> line.
\<close>

theorem parse_name_overwritten:
  "parse (js ''Host a\<newline>    name b'') = [new_host (js ''b'')] \<and>
   map (\<lambda>h. get_prop h (js ''name'')) (parse (js ''Host a\<newline>    name b'')) = [Some (js ''b'')]"
  by (simp add: eval_defs)

text \<open>
  C10. A recognized field whose value is falsy (undefined or the empty string, under both
  of its spellings) counts as not provided: \<open>addHost\<close> returns and writes a new record
  without that key, and \<open>editHost\<close> returns and writes the record with the value the key
  had before.
\<close>

theorem falsy_field_not_provided:
  assumes "k \<in> set recognized" and "\<not> truthy (field_value opts k)"
  shows "(\<not> list_ex (named name) (read f) \<longrightarrow>
           (\<exists>h'. addHost name opts f = (Inr h', write_file (read f @ [h'])) \<and>
                 get_prop h' k = None)) \<and>
         (\<forall>xs h ys. read f = xs @ h # ys \<and> named name h \<and> \<not> list_ex (named name) xs \<longrightarrow>
           (\<exists>h'. editHost name opts f = (Inr h', write_file (xs @ h' # ys)) \<and>
                 get_prop h' k = get_prop h k))"
proof -
  have s: "supplied opts k = None" using assms(2) by (simp add: supplied_def)
  have add: "\<not> list_ex (named name) (read f) \<longrightarrow>
      (\<exists>h'. addHost name opts f = (Inr h', write_file (read f @ [h'])) \<and> get_prop h' k = None)"
  proof
    assume "\<not> list_ex (named name) (read f)"
    then have "addHost name opts f
        = (Inr (apply_options (new_host name) opts),
           write_file (read f @ [apply_options (new_host name) opts]))"
      by (rule addHost_fresh)
    moreover have "get_prop (new_host name) k = None"
      using assms(1) recognized_keys[of k] by (auto simp: get_prop_def new_host_def entries_def)
    then have "get_prop (apply_options (new_host name) opts) k = None"
      using s by (simp add: get_apply_options key_split_new_host)
    ultimately show "\<exists>h'. addHost name opts f = (Inr h', write_file (read f @ [h'])) \<and>
        get_prop h' k = None" by blast
  qed
  have edit: "\<forall>xs h ys. read f = xs @ h # ys \<and> named name h \<and> \<not> list_ex (named name) xs \<longrightarrow>
      (\<exists>h'. editHost name opts f = (Inr h', write_file (xs @ h' # ys)) \<and>
            get_prop h' k = get_prop h k)"
  proof (intro allI impI)
    fix xs h ys
    assume a: "read f = xs @ h # ys \<and> named name h \<and> \<not> list_ex (named name) xs"
    then have "first_named name (read f) xs h ys" by (simp add: first_named_def)
    then have "editHost name opts f
        = (Inr (apply_options h opts), write_file (xs @ apply_options h opts # ys))"
      by (rule editHost_found)
    moreover have "wf_host h" using read_wf[of f] a by simp
    then have "get_prop (apply_options h opts) k = get_prop h k"
      using s by (simp add: get_apply_options wf_host_key_split)
    ultimately show "\<exists>h'. editHost name opts f = (Inr h', write_file (xs @ h' # ys)) \<and>
        get_prop h' k = get_prop h k" by blast
  qed
  show ?thesis using add edit by (rule conjI)
qed

theorem falsy_field_not_provided_witness:
  "(\<exists>h'. addHost (js ''b'') (no_options\<lparr>port := Some []\<rparr>) (Some (js ''Host a\<newline>    Port 22''))
          = (Inr h', write_file (read (Some (js ''Host a\<newline>    Port 22'')) @ [h'])) \<and>
        get_prop h' (js ''Port'') = None) \<and>
   (\<exists>h'. editHost (js ''a'') (no_options\<lparr>port := Some []\<rparr>) (Some (js ''Host a\<newline>    Port 22''))
          = (Inr h', write_file [h']) \<and>
        get_prop h' (js ''Port'') = Some (js ''22''))"
proof -
  let ?f = "Some (js ''Host a\<newline>    Port 22'')"
  let ?opts = "no_options\<lparr>port := Some []\<rparr>"
  let ?h = "\<lparr>elements = [], properties = [(js ''name'', js ''a''), (js ''Port'', js ''22'')]\<rparr>"
  have k: "js ''Port'' \<in> set recognized" by (simp add: recognized_def)
  have t: "\<not> truthy (field_value ?opts (js ''Port''))" by (simp add: eval_options js_def)
  have r: "read ?f = [] @ ?h # []" by (simp add: eval_defs)
  have n: "named (js ''a'') ?h" "\<not> list_ex (named (js ''a'')) []" by (simp_all add: eval_defs)
  have b: "\<not> list_ex (named (js ''b'')) (read ?f)" unfolding r by (simp add: eval_defs)
  have g: "get_prop ?h (js ''Port'') = Some (js ''22'')"
    by (simp add: get_prop_def entries_def js_def)
  from falsy_field_not_provided[OF k t, of "js ''b''" ?f] b
  have 1: "\<exists>h'. addHost (js ''b'') ?opts ?f = (Inr h', write_file (read ?f @ [h'])) \<and>
      get_prop h' (js ''Port'') = None" by blast
  from falsy_field_not_provided[OF k t, of "js ''a''" ?f] r n
  have "\<exists>h'. editHost (js ''a'') ?opts ?f = (Inr h', write_file ([] @ h' # [])) \<and>
      get_prop h' (js ''Port'') = get_prop ?h (js ''Port'')" by blast
  then show ?thesis using 1 g by simp
qed

end
